theory Spec2Isabelle
  imports Main
begin

section \<open>JavaScript strings\<close>

text \<open>
  Source strings are modelled as \<^typ>\<open>string\<close>: one \<^typ>\<open>char\<close> per UTF-16 code unit, for the
  code units 0 to 255 (Latin-1). On that range the three library functions used
  by the code are exact: \<open>toLowerCase\<close> maps A-Z and U+00C0-U+00DE (without U+00D7) to the
  character 32 positions later, and the white space of \<open>trim\<close> and of the regular
  expression class \<open>\s\<close> is TAB, LF, VT, FF, CR, SPACE and NBSP.
\<close>

definition isUpper :: "char \<Rightarrow> bool" where
  "isUpper c =
     (let n = (of_char c :: nat)
      in (65 \<le> n \<and> n \<le> 90) \<or> (192 \<le> n \<and> n \<le> 222 \<and> n \<noteq> 215))"

text \<open>Adding 32 to an upper-case code unit sets its bit 5, which is clear there.\<close>

fun plus32 :: "char \<Rightarrow> char" where
  "plus32 (Char b0 b1 b2 b3 b4 b5 b6 b7) = Char b0 b1 b2 b3 b4 True b6 b7"

definition toLowerChar :: "char \<Rightarrow> char" where
  "toLowerChar c = (if isUpper c then plus32 c else c)"

definition toLowerCase :: "string \<Rightarrow> string" where
  "toLowerCase s = map toLowerChar s"

definition startsWith :: "string \<Rightarrow> string \<Rightarrow> bool" where
  "startsWith s p = (take (length p) s = p)"

text \<open>\<open>s.includes(d)\<close>: \<open>d\<close> occurs in \<open>s\<close> at some position.\<close>

fun includesStr :: "string \<Rightarrow> string \<Rightarrow> bool" where
  "includesStr [] d = (d = [])"
| "includesStr (x # xs) d = (startsWith (x # xs) d \<or> includesStr xs d)"

text \<open>\<open>s.split(c)\<close> for a one-character separator: never the empty array.\<close>

fun splitOn :: "char \<Rightarrow> string \<Rightarrow> string list" where
  "splitOn c [] = [[]]"
| "splitOn c (x # xs) =
     (let r = splitOn c xs in if x = c then [] # r else (x # hd r) # tl r)"

text \<open>\<open>a.pop()\<close> as a value: the last element, \<open>undefined\<close> on the empty array.\<close>

definition pop :: "'a list \<Rightarrow> 'a option" where
  "pop xs = (if xs = [] then None else Some (last xs))"

definition isSpace :: "char \<Rightarrow> bool" where
  "isSpace c = (c \<in> set [CHR 0x09, CHR 0x0A, CHR 0x0B, CHR 0x0C, CHR 0x0D, CHR 0x20, CHR 0xA0])"

definition trim :: "string \<Rightarrow> string" where
  "trim s = rev (dropWhile isSpace (rev (dropWhile isSpace s)))"


section \<open>Errors\<close>

text \<open>
  Every \<open>throw new Error(...)\<close> of the modelled code is a constructor carrying the values
  interpolated into its message; \<open>External\<close> is an exception raised by a library call
  (loader, splitter, embedding model, vector store) and propagated unchanged.
\<close>

datatype error =
    UnsupportedFileType "string option"
  | QdrantConnectionFailed string
  | NoDocumentFound
  | NoChunkGenerated
  | NoValidChunk
  | NoValidVector
  | External string


section \<open>Loader selection (loaders/types.ts, loaders/index.ts)\<close>

datatype DocumentType = PDF | EPUB | URL

definition detectDocumentType :: "string \<Rightarrow> error + DocumentType" where
  "detectDocumentType fileName =
     (if startsWith fileName ''http://'' \<or> startsWith fileName ''https://'' then Inr URL
      else
        let extension = pop (splitOn CHR ''.'' (toLowerCase fileName))
        in if extension = Some ''pdf'' then Inr PDF
           else if extension = Some ''epub'' then Inr EPUB
           else Inl (UnsupportedFileType extension))"

datatype loader = PDFDocumentLoader | EPUBDocumentLoader | URLDocumentLoader

text \<open>The \<open>default\<close> branch of \<open>createLoader\<close> is unreachable for a value of the enum.\<close>

fun createLoader :: "DocumentType \<Rightarrow> loader" where
  "createLoader PDF = PDFDocumentLoader"
| "createLoader EPUB = EPUBDocumentLoader"
| "createLoader URL = URLDocumentLoader"

definition createLoaderFromFileName :: "string \<Rightarrow> error + loader" where
  "createLoaderFromFileName fileName =
     (case detectDocumentType fileName of
        Inl e \<Rightarrow> Inl e
      | Inr type \<Rightarrow> Inr (createLoader type))"


section \<open>Document ingestion (services/document.ts)\<close>

text \<open>
  A LangChain document as \<open>processDocument\<close> reads it: \<open>pageContent\<close> and
  \<open>metadata.loc?.pageNumber\<close>.
\<close>

record document =
  pageContent :: string
  pageNumber :: "int option"

datatype jsvalue = JString string | JNumber int | JUndefined

text \<open>
  An element of \<open>documentsChunksWithMetadata\<close>. The metadata object is kept as the list of
  its keys and values, in the order of the object literal, because it is spread into the
  payload of the point.
\<close>

record chunkWithMetadata =
  chunk_id :: string
  chunk_text :: string
  chunk_metadata :: "(string \<times> jsvalue) list"

record 'a point =
  point_id :: string
  point_vector :: "'a list"
  point_payload :: "(string \<times> jsvalue) list"

record UploadResponse =
  success :: bool
  documentId :: string
  chunksCount :: nat
  message :: string

text \<open>
  The collaborators of one call. A call that can throw returns the message of the exception
  (\<open>Some e\<close>, \<open>Inl e\<close>). The calls made more than once take the number of earlier calls of the
  same kind, so that they may answer differently each time: \<open>uuidv4 k\<close> is the identifier
  generated by the \<open>k\<close>-th call, \<open>toISOString k\<close> the \<open>k\<close>-th reading of the clock,
  \<open>embedDocuments k\<close> the \<open>k\<close>-th call of the embedding model and \<open>upsert k\<close> the \<open>k\<close>-th
  request to the vector store.
\<close>

record 'a env =
  getCollections :: "string option"
  loadDocuments :: "loader \<Rightarrow> string \<Rightarrow> string + document list"
  splitDocuments :: "document list \<Rightarrow> string + document list"
  uuidv4 :: "nat \<Rightarrow> string"
  toISOString :: "nat \<Rightarrow> string"
  embedDocuments :: "nat \<Rightarrow> string list \<Rightarrow> string + 'a list list"
  upsert :: "nat \<Rightarrow> 'a point list \<Rightarrow> string option"

text \<open>
  What a call leaves behind: the batches sent to the embedding model, the points of
  the upserts that succeeded (the vector store is only ever written by \<open>upsert\<close>), the
  number of upsert requests and the delays slept between them, in milliseconds.
\<close>

record 'a world =
  embedCalls :: "string list list"
  committed :: "'a point list"
  attempts :: nat
  delays :: "nat list"

definition world0 :: "'a world" where
  "world0 = \<lparr>embedCalls = [], committed = [], attempts = 0, delays = []\<rparr>"

text \<open>\<open>xs.slice(a, b)\<close> for \<open>0 \<le> a \<le> b\<close>.\<close>

definition slice :: "'b list \<Rightarrow> nat \<Rightarrow> nat \<Rightarrow> 'b list" where
  "slice xs a b = take (b - a) (drop a xs)"

definition validChunks :: "document list \<Rightarrow> document list" where
  "validChunks chunks = filter (\<lambda>chunk. length (trim (pageContent chunk)) \<ge> 10) chunks"

definition chunkWithMetadata :: "'a env \<Rightarrow> string \<Rightarrow> nat \<times> document \<Rightarrow> chunkWithMetadata" where
  "chunkWithMetadata env fileName ic =
     (case ic of (index, chunk) \<Rightarrow>
        \<lparr>chunk_id = uuidv4 env (Suc index),
         chunk_text = trim (pageContent chunk),
         chunk_metadata =
           [(''documentId'', JString (uuidv4 env 0)),
            (''chunkIndex'', JNumber (int index)),
            (''fileName'', JString fileName),
            (''uploadAt'', JString (toISOString env index)),
            (''page'', (case pageNumber chunk of None \<Rightarrow> JUndefined | Some n \<Rightarrow> JNumber n))]\<rparr>)"

definition documentsChunksWithMetadata ::
  "'a env \<Rightarrow> string \<Rightarrow> document list \<Rightarrow> chunkWithMetadata list" where
  "documentsChunksWithMetadata env fileName vchunks =
     map (chunkWithMetadata env fileName) (enumerate 0 vchunks)"

definition EMBEDDING_BATCH_SIZE :: nat where
  "EMBEDDING_BATCH_SIZE = 50"

function embedBatches ::
  "(nat \<Rightarrow> string list \<Rightarrow> string + 'a list list) \<Rightarrow> string list \<Rightarrow> nat \<Rightarrow> 'a list list \<Rightarrow>
   'a world \<Rightarrow> (string + 'a list list) \<times> 'a world" where
  "embedBatches embedFn texts i embeddingsVectors w =
     (if i < length texts then
        (let batch = slice texts i (i + EMBEDDING_BATCH_SIZE);
             w' = w\<lparr>embedCalls := embedCalls w @ [batch]\<rparr>
         in case embedFn (length (embedCalls w)) batch of
              Inl e \<Rightarrow> (Inl e, w')
            | Inr batchEmbeddings \<Rightarrow>
                embedBatches embedFn texts (i + EMBEDDING_BATCH_SIZE)
                  (embeddingsVectors @ batchEmbeddings) w')
      else (Inr embeddingsVectors, w))"
  by pat_completeness auto
termination
  by (relation "measure (\<lambda>(embedFn, texts, i, acc, w). length texts - i)")
     (auto simp: EMBEDDING_BATCH_SIZE_def)

declare embedBatches.simps [simp del]

definition EXPECTED_DIMENSION :: nat where
  "EXPECTED_DIMENSION = 384"

text \<open>
  The callback of the \<open>map\<close> that builds \<open>validData\<close>: \<open>embeddingsVectors[index]\<close> is
  \<open>undefined\<close> beyond the end of the array.
\<close>

definition toPoint :: "'a list list \<Rightarrow> nat \<times> chunkWithMetadata \<Rightarrow> 'a point option" where
  "toPoint embeddingsVectors ic =
     (case ic of (index, chunk) \<Rightarrow>
        if index < length embeddingsVectors
           \<and> length (embeddingsVectors ! index) = EXPECTED_DIMENSION
        then Some \<lparr>point_id = chunk_id chunk,
                   point_vector = embeddingsVectors ! index,
                   point_payload = (''text'', JString (chunk_text chunk)) # chunk_metadata chunk\<rparr>
        else None)"

definition validData :: "chunkWithMetadata list \<Rightarrow> 'a list list \<Rightarrow> 'a point list" where
  "validData docs embeddingsVectors =
     List.map_filter (toPoint embeddingsVectors) (enumerate 0 docs)"

definition BATCH_SIZE :: nat where
  "BATCH_SIZE = 50"

text \<open>The \<open>while (retries > 0)\<close> loop around one upsert.\<close>

function upsertWithRetry ::
  "(nat \<Rightarrow> 'a point list \<Rightarrow> string option) \<Rightarrow> 'a point list \<Rightarrow> nat \<Rightarrow> nat \<Rightarrow>
   'a world \<Rightarrow> string option \<times> 'a world" where
  "upsertWithRetry up batch retries delay w =
     (if retries > 0 then
        (let w' = w\<lparr>attempts := Suc (attempts w)\<rparr>
         in case up (attempts w) batch of
              None \<Rightarrow> (None, w'\<lparr>committed := committed w @ batch\<rparr>)
            | Some e \<Rightarrow>
                (let retries' = retries - 1
                 in if retries' = 0 then (Some e, w')
                    else upsertWithRetry up batch retries' (delay * 2)
                           (w'\<lparr>delays := delays w @ [delay]\<rparr>)))
      else (None, w))"
  by pat_completeness auto
termination
  by (relation "measure (\<lambda>(up, batch, retries, delay, w). retries)") auto

declare upsertWithRetry.simps [simp del]

text \<open>The \<open>for\<close> loop over the batches of \<open>data\<close>.\<close>

function insertBatches ::
  "(nat \<Rightarrow> 'a point list \<Rightarrow> string option) \<Rightarrow> 'a point list \<Rightarrow> nat \<Rightarrow> 'a world \<Rightarrow>
   string option \<times> 'a world" where
  "insertBatches up data i w =
     (if i < length data then
        (let batch = slice data i (i + BATCH_SIZE)
         in case upsertWithRetry up batch 3 1000 w of
              (Some e, w') \<Rightarrow> (Some e, w')
            | (None, w') \<Rightarrow> insertBatches up data (i + BATCH_SIZE) w')
      else (None, w))"
  by pat_completeness auto
termination
  by (relation "measure (\<lambda>(up, data, i, w). length data - i)")
     (auto simp: BATCH_SIZE_def)

declare insertBatches.simps [simp del]

record DocumentDto =
  fileName :: string
  filePath :: string

text \<open>
  \<open>processDocument\<close> up to the splitter (steps 0 to 2): the connection check, the
  loader chosen from the file name, \<open>loader.load(filePath)\<close> and
  \<open>textSplitter.splitDocuments\<close>, with the two emptiness checks.
\<close>

definition loadAndSplit :: "'a env \<Rightarrow> DocumentDto \<Rightarrow> error + document list" where
  "loadAndSplit env dto =
     (case getCollections env of
        Some e \<Rightarrow> Inl (QdrantConnectionFailed e)
      | None \<Rightarrow>
     (case createLoaderFromFileName (fileName dto) of
        Inl e \<Rightarrow> Inl e
      | Inr loader \<Rightarrow>
     (case loadDocuments env loader (filePath dto) of
        Inl e \<Rightarrow> Inl (External e)
      | Inr documents \<Rightarrow>
     if documents = [] then Inl NoDocumentFound
     else
     (case splitDocuments env documents of
        Inl e \<Rightarrow> Inl (External e)
      | Inr chunks \<Rightarrow>
     if chunks = [] then Inl NoChunkGenerated
     else Inr chunks))))"

text \<open>
  The whole call (steps 3 to 6 after \<open>loadAndSplit\<close>). The result comes with the world
  the call leaves behind, also when it fails.
\<close>

definition processDocument ::
  "'a env \<Rightarrow> DocumentDto \<Rightarrow> (error + UploadResponse) \<times> 'a world" where
  "processDocument env dto =
     (case loadAndSplit env dto of
        Inl e \<Rightarrow> (Inl e, world0)
      | Inr chunks \<Rightarrow>
     if validChunks chunks = [] then (Inl NoValidChunk, world0)
     else
     (let docs = documentsChunksWithMetadata env (fileName dto) (validChunks chunks);
          texts = map chunk_text docs
      in case embedBatches (embedDocuments env) texts 0 [] world0 of
           (Inl e, w1) \<Rightarrow> (Inl (External e), w1)
         | (Inr embeddingsVectors, w1) \<Rightarrow>
     (let data = validData docs embeddingsVectors
      in if data = [] then (Inl NoValidVector, w1)
         else
           (case insertBatches (upsert env) data 0 w1 of
              (Some e, w2) \<Rightarrow> (Inl (External e), w2)
            | (None, w2) \<Rightarrow>
                (Inr \<lparr>success = True,
                      documentId = uuidv4 env 0,
                      chunksCount = length docs,
                      message = ''Documento processado com sucesso!''\<rparr>, w2)))))"


section \<open>Content extraction (utils/scraper.ts)\<close>

datatype ScraperEngine = Cheerio | Playwright

record ScrapedContent =
  content :: string
  title :: "string option"
  ogImage :: "string option"
  url :: string
  scrapedAt :: string

text \<open>
  The errors of the two scrapers. \<open>HttpStatus\<close>, \<open>ContentTooShort\<close> and
  \<open>NoDocumentLoaded\<close> are thrown inside the \<open>try\<close> block and \<open>Thrown\<close> is any other
  exception caught there; the \<open>catch\<close> block rethrows them with the prefix of the scraper
  (\<open>CheerioError\<close>, \<open>PlaywrightError\<close>). \<open>RequestTimeout\<close>, \<open>HttpError\<close> and
  \<open>NetworkFailure\<close> are the three messages built from an Axios error.
\<close>

datatype scrape_cause =
    HttpStatus nat
  | ContentTooShort nat
  | NoDocumentLoaded
  | Thrown string

datatype scrape_error =
    RequestTimeout nat string
  | HttpError nat string
  | NetworkFailure string
  | CheerioError scrape_cause
  | PlaywrightError scrape_cause

definition SCRAPER_CONFIG_timeout :: nat where
  "SCRAPER_CONFIG_timeout = 20000"

definition CONTENT_SELECTORS :: "string list" where
  \<open>CONTENT_SELECTORS =
     [''article'', ''main'', ''[role="main"]'', ''.content'', ''.post-content'',
      ''.article-content'', ''.entry-content'', ''#content'', ''body'']\<close>

definition PLAYWRIGHT_REQUIRED_DOMAINS :: "string list" where
  "PLAYWRIGHT_REQUIRED_DOMAINS =
     [''twitter.com'', ''x.com'', ''instagram.com'', ''linkedin.com'', ''facebook.com'',
      ''medium.com'']"

text \<open>
  The document that \<open>cheerio.load\<close> returns, as the scraper queries it: the \<open>content\<close>
  attribute of the first \<open>og:title\<close> and \<open>og:image\<close> meta element (\<open>undefined\<close> without
  one), the text of \<open>title\<close> and of the first \<open>h1\<close> (empty without one), and, once the
  unwanted elements are removed, \<open>html()\<close> of the first element matching a selector
  (\<open>None\<close> without a match, \<open>Some None\<close> when \<open>html()\<close> is \<open>null\<close>).
\<close>

record page =
  ogTitleContent :: "string option"
  titleText :: string
  firstH1Text :: string
  ogImageContent :: "string option"
  firstHtml :: "string \<Rightarrow> string option option"

text \<open>The outcome of \<open>axios.get\<close>: a response, an Axios error, or another exception.\<close>

datatype axios_outcome =
    Response nat page
  | AxiosError (code: "string option") (response: "nat option") (request: bool) (errmsg: string)
  | OtherError string

text \<open>What \<open>JSON.parse(docs[0].pageContent)\<close> gives in the Playwright scraper.\<close>

record pw_data =
  pw_title :: string
  pw_ogImage :: "string option"
  pw_content :: string

text \<open>
  The libraries of the scraper: \<open>convertHtml\<close> is \<open>convert\<close> of html-to-text with the options
  of the code, \<open>resolveUrl v base\<close> is \<open>new URL(v, base).href\<close> (\<open>None\<close> when the constructor
  throws), \<open>nowISO\<close> is \<open>new Date().toISOString()\<close>.
\<close>

record scrape_env =
  axiosGet :: "string \<Rightarrow> axios_outcome"
  convertHtml :: "string \<Rightarrow> string"
  resolveUrl :: "string \<Rightarrow> string \<Rightarrow> string option"
  nowISO :: string
  playwrightLoad :: "string \<Rightarrow> string + pw_data list"

text \<open>The test \<open>if (v)\<close> on a value that is a string or \<open>undefined\<close>/\<open>null\<close>.\<close>

definition truthy :: "string option \<Rightarrow> string option" where
  "truthy v = (case v of None \<Rightarrow> None | Some t \<Rightarrow> if t = [] then None else Some t)"

definition extractTitle :: "page \<Rightarrow> string option" where
  "extractTitle p =
     (case truthy (ogTitleContent p) of
        Some ogTitle \<Rightarrow> Some (trim ogTitle)
      | None \<Rightarrow>
          if titleText p \<noteq> [] then Some (trim (titleText p))
          else if firstH1Text p \<noteq> [] then Some (trim (firstH1Text p))
          else None)"

definition extractOgImage :: "scrape_env \<Rightarrow> page \<Rightarrow> string \<Rightarrow> string option" where
  "extractOgImage env p baseUrl =
     (case truthy (ogImageContent p) of
        None \<Rightarrow> None
      | Some v \<Rightarrow>
          (case resolveUrl env v baseUrl of
             Some href \<Rightarrow> Some href
           | None \<Rightarrow> Some v))"

fun firstContent :: "(string \<Rightarrow> string option option) \<Rightarrow> string list \<Rightarrow> string option" where
  "firstContent q [] = None"
| "firstContent q (selector # rest) =
     (case q selector of
        Some (Some html) \<Rightarrow>
          if html \<noteq> [] \<and> length (trim html) > 0 then Some html else firstContent q rest
      | _ \<Rightarrow> firstContent q rest)"

definition extractMainContent :: "page \<Rightarrow> string" where
  "extractMainContent p =
     (case firstContent (firstHtml p) CONTENT_SELECTORS of
        Some html \<Rightarrow> html
      | None \<Rightarrow> (case firstHtml p ''body'' of Some (Some html) \<Rightarrow> html | _ \<Rightarrow> []))"

text \<open>
  \<open>replace(/\n\s*\n\s*\n/g, "\n\n")\<close>: a match starts at a line feed followed by a run of
  white space that holds two more line feeds, and ends at the last line feed of the run.
\<close>

definition LF :: char where
  "LF = CHR 0x0A"

function collapseNewlines :: "string \<Rightarrow> string" where
  "collapseNewlines [] = []"
| "collapseNewlines (c # cs) =
     (let run = takeWhile isSpace cs
      in if c = LF \<and> count_list run LF \<ge> 2
         then LF # LF # collapseNewlines
                (drop (length run - length (takeWhile (\<lambda>x. x \<noteq> LF) (rev run))) cs)
         else c # collapseNewlines cs)"
  by pat_completeness auto
termination
  by (relation "measure length") auto

text \<open>\<open>replace(/[ \t]+/g, " ")\<close>.\<close>

definition isBlank :: "char \<Rightarrow> bool" where
  "isBlank c = (c = CHR 0x20 \<or> c = CHR 0x09)"

function collapseBlanks :: "string \<Rightarrow> string" where
  "collapseBlanks [] = []"
| "collapseBlanks (c # cs) =
     (if isBlank c then CHR 0x20 # collapseBlanks (dropWhile isBlank cs)
      else c # collapseBlanks cs)"
  by pat_completeness auto
termination
  by (relation "measure length") (auto simp: length_dropWhile_le less_Suc_eq_le)

definition cleanText :: "string \<Rightarrow> string" where
  "cleanText text = trim (collapseBlanks (collapseNewlines text))"

definition htmlToCleanText :: "scrape_env \<Rightarrow> string \<Rightarrow> string" where
  "htmlToCleanText env html = trim (collapseBlanks (collapseNewlines (convertHtml env html)))"

definition cheerioScrape :: "scrape_env \<Rightarrow> string \<Rightarrow> scrape_error + ScrapedContent" where
  "cheerioScrape env u =
     (case axiosGet env u of
        Response status p \<Rightarrow>
          if status \<noteq> 200 then Inl (CheerioError (HttpStatus status))
          else
            (let t = extractTitle p;
                 img = extractOgImage env p u;
                 mainContent = extractMainContent p;
                 txt = htmlToCleanText env mainContent
             in if length txt < 100 then Inl (CheerioError (ContentTooShort (length txt)))
                else Inr \<lparr>content = txt, title = t, ogImage = img, url = u,
                          scrapedAt = nowISO env\<rparr>)
      | AxiosError c resp req msg \<Rightarrow>
          if c = Some ''ECONNABORTED'' then Inl (RequestTimeout SCRAPER_CONFIG_timeout u)
          else
            (case resp of
               Some status \<Rightarrow> Inl (HttpError status u)
             | None \<Rightarrow>
                 if req then Inl (NetworkFailure u) else Inl (CheerioError (Thrown msg)))
      | OtherError msg \<Rightarrow> Inl (CheerioError (Thrown msg)))"

definition playwrightScrape :: "scrape_env \<Rightarrow> string \<Rightarrow> scrape_error + ScrapedContent" where
  "playwrightScrape env u =
     (case playwrightLoad env u of
        Inl msg \<Rightarrow> Inl (PlaywrightError (Thrown msg))
      | Inr docs \<Rightarrow>
          (case docs of
             [] \<Rightarrow> Inl (PlaywrightError NoDocumentLoaded)
           | d # _ \<Rightarrow>
               (let txt = cleanText (pw_content d)
                in if length txt < 100 then Inl (PlaywrightError (ContentTooShort (length txt)))
                   else Inr \<lparr>content = txt, title = truthy (Some (pw_title d)),
                             ogImage = truthy (pw_ogImage d), url = u,
                             scrapedAt = nowISO env\<rparr>)))"

definition detectScraperEngine :: "string \<Rightarrow> ScraperEngine" where
  "detectScraperEngine u =
     (let needsPlaywright =
            list_ex (\<lambda>domain. includesStr (toLowerCase u) domain) PLAYWRIGHT_REQUIRED_DOMAINS
      in if needsPlaywright then Playwright else Cheerio)"

text \<open>\<open>engine || detectScraperEngine(url)\<close>: both values of the engine type are truthy.\<close>

definition selectedEngine :: "string \<Rightarrow> ScraperEngine option \<Rightarrow> ScraperEngine" where
  "selectedEngine u engine = (case engine of Some e \<Rightarrow> e | None \<Rightarrow> detectScraperEngine u)"

definition scrapeUrl ::
  "scrape_env \<Rightarrow> string \<Rightarrow> ScraperEngine option \<Rightarrow> scrape_error + ScrapedContent" where
  "scrapeUrl env u engine =
     (case selectedEngine u engine of
        Cheerio \<Rightarrow> cheerioScrape env u
      | Playwright \<Rightarrow> playwrightScrape env u)"


section \<open>Readings of the specification, for comparison with the code\<close>

text \<open>
  The definitions of this section are not taken from the code. Each follows the words of
  the specification, and is compared below with the function of the code it describes.
\<close>

text \<open>
  Following the specification's words (section 4.2): a locator is routed by its file
  extension, the text after its last dot, compared without regard to case; a locator
  without a dot has no extension.
\<close>

definition spec_extension :: "string \<Rightarrow> string option" where
  "spec_extension s =
     (if CHR ''.'' \<in> set s then pop (splitOn CHR ''.'' (toLowerCase s)) else None)"

definition spec_selectLoader :: "string \<Rightarrow> error + loader" where
  "spec_selectLoader s =
     (if startsWith s ''http://'' \<or> startsWith s ''https://'' then Inr URLDocumentLoader
      else if spec_extension s = Some ''pdf'' then Inr PDFDocumentLoader
      else if spec_extension s = Some ''epub'' then Inr EPUBDocumentLoader
      else Inl (UnsupportedFileType (spec_extension s)))"

text \<open>
  Following the specification's words (section 4.1): the strategy hint if given, otherwise
  the rendered strategy when the domain of the URL (the host between \<open>://\<close> and the next
  \<open>/\<close>, \<open>?\<close>, \<open>#\<close> or \<open>:\<close>) is a listed domain or a subdomain of one.
\<close>

fun afterScheme :: "string \<Rightarrow> string" where
  "afterScheme [] = []"
| "afterScheme (c # cs) = (if startsWith (c # cs) ''://'' then drop 3 (c # cs) else afterScheme cs)"

definition spec_urlDomain :: "string \<Rightarrow> string" where
  "spec_urlDomain u =
     takeWhile (\<lambda>c. c \<notin> set ''/?#:'') (afterScheme (toLowerCase u))"

definition spec_domainListed :: "string \<Rightarrow> bool" where
  "spec_domainListed u =
     list_ex (\<lambda>d. spec_urlDomain u = d
                  \<or> drop (length (spec_urlDomain u) - length (CHR ''.'' # d)) (spec_urlDomain u) = CHR ''.'' # d)
       PLAYWRIGHT_REQUIRED_DOMAINS"

definition spec_selectStrategy :: "string \<Rightarrow> ScraperEngine option \<Rightarrow> ScraperEngine" where
  "spec_selectStrategy u hint =
     (case hint of Some e \<Rightarrow> e
      | None \<Rightarrow> if spec_domainListed u then Playwright else Cheerio)"

text \<open>
  Following the specification's words (section 4.1): the title is the content of the
  \<open>og:title\<close> meta element if that is present, otherwise the text of \<open>title\<close>, otherwise
  that of the first \<open>h1\<close>, otherwise null; the image is null when the \<open>og:image\<close> meta
  element is absent, otherwise its content resolved against the page URL, or the raw
  content when it cannot be resolved.
\<close>

definition spec_extractTitle :: "page \<Rightarrow> string option" where
  "spec_extractTitle p =
     (case ogTitleContent p of
        Some t \<Rightarrow> Some (trim t)
      | None \<Rightarrow>
          if titleText p \<noteq> [] then Some (trim (titleText p))
          else if firstH1Text p \<noteq> [] then Some (trim (firstH1Text p))
          else None)"

definition spec_extractOgImage :: "scrape_env \<Rightarrow> page \<Rightarrow> string \<Rightarrow> string option" where
  "spec_extractOgImage env p baseUrl =
     (case ogImageContent p of
        None \<Rightarrow> None
      | Some v \<Rightarrow> (case resolveUrl env v baseUrl of Some href \<Rightarrow> Some href | None \<Rightarrow> Some v))"

section \<open>Batches of fifty\<close>

text \<open>
  The \<open>k\<close>-th group of fifty elements of a list, and what the embedding model answers
  when it is sent the \<open>k\<close>-th group of the texts as its \<open>k\<close>-th call.
\<close>

definition batchAt :: "'b list \<Rightarrow> nat \<Rightarrow> 'b list" where
  "batchAt xs k = slice xs (50 * k) (50 * k + 50)"

definition answerAt :: "(nat \<Rightarrow> string list \<Rightarrow> string + 'a list list) \<Rightarrow> string list \<Rightarrow> nat \<Rightarrow> 'a list list" where
  "answerAt embedFn texts k = (case embedFn k (batchAt texts k) of Inl e \<Rightarrow> [] | Inr vs \<Rightarrow> vs)"

text \<open>
  The vectors that pass the validation of step 5, by the index of their chunk, and the
  point built from chunk \<open>k\<close> and vector \<open>k\<close>.
\<close>

definition validVector :: "'a list list \<Rightarrow> nat \<Rightarrow> bool" where
  "validVector vs k = (k < length vs \<and> length (vs ! k) = 384)"

definition pointOf :: "chunkWithMetadata list \<Rightarrow> 'a list list \<Rightarrow> nat \<Rightarrow> 'a point" where
  "pointOf docs vs k =
     \<lparr>point_id = chunk_id (docs ! k),
      point_vector = vs ! k,
      point_payload = (''text'', JString (chunk_text (docs ! k))) # chunk_metadata (docs ! k)\<rparr>"

section \<open>Sample inputs\<close>

definition dto_book :: DocumentDto where
  "dto_book = \<lparr>fileName = ''book.pdf'', filePath = ''/tmp/book.pdf''\<rparr>"

definition chunks_mixed :: "document list" where
  "chunks_mixed =
     [\<lparr>pageContent = '' first chunk of text '', pageNumber = Some 1\<rparr>,
      \<lparr>pageContent = ''  tiny  '', pageNumber = Some 1\<rparr>,
      \<lparr>pageContent = ''second chunk of text'', pageNumber = None\<rparr>]"

definition env_mixed :: "int env" where
  "env_mixed =
     \<lparr>getCollections = None,
      loadDocuments = (\<lambda>l p. Inr [\<lparr>pageContent = ''whole text of the book'', pageNumber = None\<rparr>]),
      splitDocuments = (\<lambda>ds. Inr [\<lparr>pageContent = '' first chunk of text '', pageNumber = Some 1\<rparr>,
                                  \<lparr>pageContent = ''  tiny  '', pageNumber = Some 1\<rparr>,
                                  \<lparr>pageContent = ''second chunk of text'', pageNumber = None\<rparr>]),
      uuidv4 = (\<lambda>k. [''doc-0'', ''chunk-a'', ''chunk-b''] ! k),
      toISOString = (\<lambda>k. ''2025-01-01T00:00:00.000Z''),
      embedDocuments = (\<lambda>k batch. Inr [replicate 384 0, replicate 256 0]),
      upsert = (\<lambda>k batch. None)\<rparr>"

definition env_tiny :: "int env" where
  "env_tiny =
     \<lparr>getCollections = None,
      loadDocuments = (\<lambda>l p. Inr [\<lparr>pageContent = ''a b c'', pageNumber = None\<rparr>]),
      splitDocuments = (\<lambda>ds. Inr [\<lparr>pageContent = ''  a b c   '', pageNumber = None\<rparr>]),
      uuidv4 = (\<lambda>k. [''doc-0'', ''chunk-a'', ''chunk-b''] ! k),
      toISOString = (\<lambda>k. ''2025-01-01T00:00:00.000Z''),
      embedDocuments = (\<lambda>k batch. Inr [replicate 384 0]),
      upsert = (\<lambda>k batch. None)\<rparr>"

definition env_three :: "int env" where
  "env_three =
     \<lparr>getCollections = None,
      loadDocuments = (\<lambda>l p. Inr [\<lparr>pageContent = ''whole text of the book'', pageNumber = None\<rparr>]),
      splitDocuments = (\<lambda>ds. Inr chunks_mixed),
      uuidv4 = (\<lambda>k. [''doc-0'', ''chunk-a'', ''chunk-b''] ! k),
      toISOString = (\<lambda>k. ''2025-01-01T00:00:00.000Z''),
      embedDocuments = (\<lambda>k batch. Inr (map (\<lambda>t. replicate 384 0) batch)),
      upsert = (\<lambda>k batch. None)\<rparr>"

definition env_down :: "int env" where
  "env_down =
     \<lparr>getCollections = None,
      loadDocuments = (\<lambda>l p. Inr [\<lparr>pageContent = ''whole text of the book'', pageNumber = None\<rparr>]),
      splitDocuments = (\<lambda>ds. Inr [\<lparr>pageContent = '' first chunk of text '', pageNumber = Some 1\<rparr>]),
      uuidv4 = (\<lambda>k. [''doc-0'', ''chunk-a'', ''chunk-b''] ! k),
      toISOString = (\<lambda>k. ''2025-01-01T00:00:00.000Z''),
      embedDocuments = (\<lambda>k batch. Inr [replicate 384 0]),
      upsert = (\<lambda>k batch. Some ''unavailable'')\<rparr>"

definition point_a :: "int point" where
  "point_a =
     \<lparr>point_id = ''chunk-a'', point_vector = replicate 384 0,
      point_payload =
        [(''text'', JString ''first chunk of text''), (''documentId'', JString ''doc-0''),
         (''chunkIndex'', JNumber 0), (''fileName'', JString ''book.pdf''),
         (''uploadAt'', JString ''2025-01-01T00:00:00.000Z''), (''page'', JNumber 1)]\<rparr>"

definition page_short :: page where
  "page_short =
     \<lparr>ogTitleContent = Some [],
      titleText = '' Hello '',
      firstH1Text = ''Heading'',
      ogImageContent = Some [],
      firstHtml = (\<lambda>selector. if selector = ''body'' then Some (Some ''<p>three word page</p>'')
                               else None)\<rparr>"

definition senv :: scrape_env where
  "senv =
     \<lparr>axiosGet = (\<lambda>u. if u = ''https://example.org/missing'' then Response 204 page_short
                        else if u = ''https://example.org/gone''
                        then AxiosError (Some ''ERR_BAD_REQUEST'') (Some 404) True
                               ''Request failed with status code 404''
                        else Response 200 page_short),
      convertHtml = (\<lambda>html. ''three word page''),
      resolveUrl = (\<lambda>v base. if v = [] then Some base else None),
      nowISO = ''2025-01-01T00:00:00.000Z'',
      playwrightLoad = (\<lambda>u. Inr [\<lparr>pw_title = ''Hello'', pw_ogImage = None,
                                     pw_content = ''  three   word page ''\<rparr>])\<rparr>"

definition page_article :: page where
  "page_article =
     \<lparr>ogTitleContent = Some '' A long read '',
      titleText = ''Site'',
      firstH1Text = ''Heading'',
      ogImageContent = Some ''/img/cover.png'',
      firstHtml = (\<lambda>selector. if selector = ''article'' then Some (Some ''<p>text</p>'')
                               else None)\<rparr>"

definition text_100 :: string where
  "text_100 = ''0123456789012345678901234567890123456789012345678901234567890123456789012345678901234567890123456789''"

definition senv_article :: scrape_env where
  "senv_article =
     \<lparr>axiosGet = (\<lambda>u. Response 200 page_article),
      convertHtml = (\<lambda>html. text_100),
      resolveUrl = (\<lambda>v base. if v = ''/img/cover.png'' then Some ''https://example.org/img/cover.png''
                                else None),
      nowISO = ''2025-01-01T00:00:00.000Z'',
      playwrightLoad = (\<lambda>u. Inl ''browser not installed'')\<rparr>"

section \<open>Facts about the string functions\<close>

lemma splitOn_not_Nil: "splitOn c s \<noteq> []"
  by (induction s) (simp_all add: Let_def)

lemma splitOn_no_sep: "c \<notin> set s \<Longrightarrow> splitOn c s = [s]"
  by (induction s) (auto simp: Let_def)

lemma splitOn_length: "length (splitOn c s) = Suc (count_list s c)"
proof (induction s)
  case Nil
  show ?case by simp
next
  case (Cons x xs)
  have "splitOn c xs \<noteq> []" by (rule splitOn_not_Nil)
  then have "length (tl (splitOn c xs)) = count_list xs c"
    using Cons.IH by simp
  then show ?case using Cons.IH by (simp add: Let_def)
qed

lemma last_splitOn_Cons:
  "last (splitOn c (x # xs)) =
     (if x = c \<or> c \<in> set xs then last (splitOn c xs) else x # xs)"
proof (cases "x = c")
  case True
  then show ?thesis by (simp add: Let_def splitOn_not_Nil)
next
  case False
  show ?thesis
  proof (cases "c \<in> set xs")
    case True
    then have "count_list xs c \<noteq> 0" by (simp add: count_list_0_iff)
    then have "length (splitOn c xs) \<ge> 2" by (simp add: splitOn_length)
    then have "tl (splitOn c xs) \<noteq> []"
      by (cases "splitOn c xs") auto
    then show ?thesis using False True
      by (simp add: Let_def last_tl)
  next
    case notin: False
    then show ?thesis using False by (simp add: Let_def splitOn_no_sep)
  qed
qed

lemma last_splitOn_append:
  "c \<notin> set e \<Longrightarrow> last (splitOn c (stem @ c # e)) = e"
proof (induction stem)
  case Nil
  then show ?case by (simp add: Let_def splitOn_not_Nil splitOn_no_sep)
next
  case (Cons x xs)
  have "last (splitOn c (x # (xs @ c # e))) = last (splitOn c (xs @ c # e))"
    by (subst last_splitOn_Cons) simp
  then show ?case using Cons by simp
qed

lemma pop_splitOn_ext:
  "c \<notin> set e \<Longrightarrow> pop (splitOn c (stem @ c # e)) = Some e"
  by (simp add: pop_def splitOn_not_Nil last_splitOn_append)

lemma pop_splitOn_no_sep:
  "c \<notin> set s \<Longrightarrow> pop (splitOn c s) = Some s"
  by (simp add: pop_def splitOn_no_sep)

lemma last_splitOn_shape:
  "c \<notin> set (last (splitOn c t)) \<and>
   ((c \<notin> set t \<and> last (splitOn c t) = t) \<or> (\<exists>stem. t = stem @ c # last (splitOn c t)))"
proof (induction t)
  case Nil
  show ?case by simp
next
  case (Cons x xs)
  show ?case
  proof (cases "x = c \<or> c \<in> set xs")
    case True
    then have l: "last (splitOn c (x # xs)) = last (splitOn c xs)"
      by (subst last_splitOn_Cons) simp
    have "\<exists>stem. x # xs = stem @ c # last (splitOn c xs)"
    proof (cases "c \<in> set xs")
      case True
      with Cons.IH obtain stem where "xs = stem @ c # last (splitOn c xs)" by blast
      then have "x # xs = (x # stem) @ c # last (splitOn c xs)" by simp
      then show ?thesis by blast
    next
      case False
      with True have "x = c" "last (splitOn c xs) = xs"
        by (simp_all add: splitOn_no_sep)
      then have "x # xs = [] @ c # last (splitOn c xs)" by simp
      then show ?thesis by blast
    qed
    with l Cons.IH show ?thesis by (simp del: splitOn.simps)
  next
    case False
    then have "last (splitOn c (x # xs)) = x # xs"
      by (subst last_splitOn_Cons) simp
    with False show ?thesis by (auto simp del: splitOn.simps)
  qed
qed

lemma pop_splitOn_iff:
  "pop (splitOn c t) = Some e \<longleftrightarrow> c \<notin> set e \<and> (t = e \<or> (\<exists>stem. t = stem @ c # e))"
proof
  assume "pop (splitOn c t) = Some e"
  then have "last (splitOn c t) = e" by (simp add: pop_def splitOn_not_Nil)
  then show "c \<notin> set e \<and> (t = e \<or> (\<exists>stem. t = stem @ c # e))"
    using last_splitOn_shape [of c t] by auto
next
  assume "c \<notin> set e \<and> (t = e \<or> (\<exists>stem. t = stem @ c # e))"
  then show "pop (splitOn c t) = Some e"
    by (auto simp: pop_splitOn_ext pop_splitOn_no_sep)
qed

lemma startsWith_http: "startsWith s ''http://'' \<longleftrightarrow> take 7 s = ''http://''"
  by (simp add: startsWith_def eval_nat_numeral)

lemma startsWith_https: "startsWith s ''https://'' \<longleftrightarrow> take 8 s = ''https://''"
  by (simp add: startsWith_def eval_nat_numeral)

lemma includesStr_iff: "includesStr s d \<longleftrightarrow> (\<exists>pre post. s = pre @ d @ post)"
proof (induction s)
  case Nil
  show ?case by auto
next
  case (Cons x xs)
  have a: "startsWith (x # xs) d \<longleftrightarrow> (\<exists>post. x # xs = d @ post)"
    unfolding startsWith_def
    by (metis append_eq_conv_conj)
  have "(\<exists>pre post. x # xs = pre @ d @ post) \<longleftrightarrow>
        (\<exists>post. x # xs = d @ post) \<or> (\<exists>pre post. xs = pre @ d @ post)"
  proof
    assume "\<exists>pre post. x # xs = pre @ d @ post"
    then obtain pre post where e: "x # xs = pre @ d @ post" by blast
    show "(\<exists>post. x # xs = d @ post) \<or> (\<exists>pre post. xs = pre @ d @ post)"
    proof (cases pre)
      case Nil
      with e show ?thesis by auto
    next
      case (Cons y ys)
      with e have "xs = ys @ d @ post" by simp
      then show ?thesis by blast
    qed
  next
    assume "(\<exists>post. x # xs = d @ post) \<or> (\<exists>pre post. xs = pre @ d @ post)"
    then show "\<exists>pre post. x # xs = pre @ d @ post"
    proof
      assume "\<exists>post. x # xs = d @ post"
      then obtain post where "x # xs = [] @ d @ post" by auto
      then show ?thesis by blast
    next
      assume "\<exists>pre post. xs = pre @ d @ post"
      then obtain pre post where "x # xs = (x # pre) @ d @ post" by auto
      then show ?thesis by blast
    qed
  qed
  then show ?case using a Cons.IH by simp
qed

lemmas str_eval = toLowerCase_def toLowerChar_def isUpper_def startsWith_def pop_def Let_def

lemmas loader_eval = createLoaderFromFileName_def detectDocumentType_def

lemmas engine_eval = selectedEngine_def detectScraperEngine_def PLAYWRIGHT_REQUIRED_DOMAINS_def

lemmas ingest_eval = processDocument_def loadAndSplit_def validChunks_def
  documentsChunksWithMetadata_def chunkWithMetadata_def validData_def toPoint_def world0_def
  slice_def trim_def isSpace_def EMBEDDING_BATCH_SIZE_def EXPECTED_DIMENSION_def BATCH_SIZE_def
  List.map_filter_def enumerate_eq_zip embedBatches.simps upsertWithRetry.simps
  insertBatches.simps

lemmas scrape_eval = cheerioScrape_def playwrightScrape_def extractTitle_def extractOgImage_def
  extractMainContent_def htmlToCleanText_def cleanText_def truthy_def CONTENT_SELECTORS_def
  trim_def isSpace_def isBlank_def LF_def SCRAPER_CONFIG_timeout_def

section \<open>Loader selection\<close>

text \<open>
  On every locator that starts with \<open>http://\<close> or \<open>https://\<close> or contains a dot, the
  code selects as the specification says.
\<close>

lemma loader_selection_agrees:
  "startsWith s ''http://'' \<or> startsWith s ''https://'' \<or> CHR ''.'' \<in> set s
   \<Longrightarrow> createLoaderFromFileName s = spec_selectLoader s"
  by (auto simp: createLoaderFromFileName_def detectDocumentType_def spec_selectLoader_def
                 spec_extension_def Let_def)


lemma not_url_of_variant:
  assumes "(toLowerCase (take 7 s) = ''http://'' \<and> take 7 s \<noteq> ''http://'')
           \<or> (toLowerCase (take 8 s) = ''https://'' \<and> take 8 s \<noteq> ''https://'')"
  shows "\<not> startsWith s ''http://'' \<and> \<not> startsWith s ''https://''"
proof -
  have t: "take 7 s = take 7 (take 8 s)" by simp
  from assms show ?thesis
  proof
    assume h: "toLowerCase (take 7 s) = ''http://'' \<and> take 7 s \<noteq> ''http://''"
    have "take 8 s \<noteq> ''https://''"
    proof
      assume "take 8 s = ''https://''"
      with t have "take 7 s = ''https:/''" by simp
      with h show False by (simp add: str_eval)
    qed
    with h show ?thesis by (simp add: startsWith_http startsWith_https)
  next
    assume h: "toLowerCase (take 8 s) = ''https://'' \<and> take 8 s \<noteq> ''https://''"
    have "take 7 s \<noteq> ''http://''"
    proof
      assume a: "take 7 s = ''http://''"
      have "toLowerCase (take 7 s) = take 7 (toLowerCase (take 8 s))"
        by (simp add: toLowerCase_def take_map)
      with h a show False by (simp add: str_eval)
    qed
    with h show ?thesis by (simp add: startsWith_http startsWith_https)
  qed
qed

text \<open>
  Claim C10. Two locators that are not URLs and are equal up to case select the same
  loader or fail alike (\<open>book.PDF\<close> selects the PDF loader, \<open>book.Epub\<close> the EPUB
  loader). The scheme test is case-sensitive: a locator whose first seven characters are
  a case variant of \<open>http://\<close> other than \<open>http://\<close> itself, or whose first eight
  are such a variant of \<open>https://\<close>, is never given to the URL loader; it is routed by
  its extension, and fails with the unsupported-type error when the extension is
  neither \<open>pdf\<close> nor \<open>epub\<close>.
\<close>

theorem extension_case_insensitive_scheme_case_sensitive:
  "(\<not> startsWith s ''http://'' \<and> \<not> startsWith s ''https://''
      \<and> \<not> startsWith t ''http://'' \<and> \<not> startsWith t ''https://''
      \<and> toLowerCase s = toLowerCase t
     \<longrightarrow> createLoaderFromFileName s = createLoaderFromFileName t)
   \<and> createLoaderFromFileName ''book.PDF'' = Inr PDFDocumentLoader
   \<and> createLoaderFromFileName ''book.Epub'' = Inr EPUBDocumentLoader
   \<and> ((toLowerCase (take 7 s) = ''http://'' \<and> take 7 s \<noteq> ''http://'')
        \<or> (toLowerCase (take 8 s) = ''https://'' \<and> take 8 s \<noteq> ''https://'')
     \<longrightarrow> createLoaderFromFileName s \<noteq> Inr URLDocumentLoader
         \<and> createLoaderFromFileName s =
             (let extension = pop (splitOn CHR ''.'' (toLowerCase s))
              in if extension = Some ''pdf'' then Inr PDFDocumentLoader
                 else if extension = Some ''epub'' then Inr EPUBDocumentLoader
                 else Inl (UnsupportedFileType extension)))"
proof -
  have a: "\<not> startsWith s ''http://'' \<and> \<not> startsWith s ''https://''
      \<and> \<not> startsWith t ''http://'' \<and> \<not> startsWith t ''https://''
      \<and> toLowerCase s = toLowerCase t
     \<longrightarrow> createLoaderFromFileName s = createLoaderFromFileName t"
    by (simp add: loader_eval)
  have b: "createLoaderFromFileName ''book.PDF'' = Inr PDFDocumentLoader"
    by (simp add: loader_eval str_eval)
  have c: "createLoaderFromFileName ''book.Epub'' = Inr EPUBDocumentLoader"
    by (simp add: loader_eval str_eval)
  have d: "(toLowerCase (take 7 s) = ''http://'' \<and> take 7 s \<noteq> ''http://'')
        \<or> (toLowerCase (take 8 s) = ''https://'' \<and> take 8 s \<noteq> ''https://'')
     \<longrightarrow> createLoaderFromFileName s \<noteq> Inr URLDocumentLoader
         \<and> createLoaderFromFileName s =
             (let extension = pop (splitOn CHR ''.'' (toLowerCase s))
              in if extension = Some ''pdf'' then Inr PDFDocumentLoader
                 else if extension = Some ''epub'' then Inr EPUBDocumentLoader
                 else Inl (UnsupportedFileType extension))"
  proof
    assume "(toLowerCase (take 7 s) = ''http://'' \<and> take 7 s \<noteq> ''http://'')
        \<or> (toLowerCase (take 8 s) = ''https://'' \<and> take 8 s \<noteq> ''https://'')"
    then have "\<not> startsWith s ''http://'' \<and> \<not> startsWith s ''https://''"
      by (rule not_url_of_variant)
    then show "createLoaderFromFileName s \<noteq> Inr URLDocumentLoader
         \<and> createLoaderFromFileName s =
             (let extension = pop (splitOn CHR ''.'' (toLowerCase s))
              in if extension = Some ''pdf'' then Inr PDFDocumentLoader
                 else if extension = Some ''epub'' then Inr EPUBDocumentLoader
                 else Inl (UnsupportedFileType extension))"
      by (simp add: loader_eval Let_def)
  qed
  from a b c d show ?thesis by blast
qed

theorem extension_case_insensitive_scheme_case_sensitive_witness:
  "createLoaderFromFileName ''HTTP://example.com/page'' = Inl (UnsupportedFileType (Some ''com/page''))
   \<and> createLoaderFromFileName ''Https://example.com/book.pdf'' = Inr PDFDocumentLoader
   \<and> createLoaderFromFileName ''Report.PDF'' = createLoaderFromFileName ''report.pdf''"
proof -
  have v1: "toLowerCase (take 7 ''HTTP://example.com/page'') = ''http://''
            \<and> take 7 ''HTTP://example.com/page'' \<noteq> ''http://''"
    by (simp add: str_eval)
  have v2: "toLowerCase (take 8 ''Https://example.com/book.pdf'') = ''https://''
            \<and> take 8 ''Https://example.com/book.pdf'' \<noteq> ''https://''"
    by (simp add: str_eval)
  have v3: "\<not> startsWith ''Report.PDF'' ''http://'' \<and> \<not> startsWith ''Report.PDF'' ''https://''
      \<and> \<not> startsWith ''report.pdf'' ''http://'' \<and> \<not> startsWith ''report.pdf'' ''https://''
      \<and> toLowerCase ''Report.PDF'' = toLowerCase ''report.pdf''"
    by (simp add: str_eval)
  have r1: "createLoaderFromFileName ''HTTP://example.com/page'' =
             (let extension = pop (splitOn CHR ''.'' (toLowerCase ''HTTP://example.com/page''))
              in if extension = Some ''pdf'' then Inr PDFDocumentLoader
                 else if extension = Some ''epub'' then Inr EPUBDocumentLoader
                 else Inl (UnsupportedFileType extension))"
    using v1 extension_case_insensitive_scheme_case_sensitive [of "''HTTP://example.com/page''"]
    by blast
  have r2: "createLoaderFromFileName ''Https://example.com/book.pdf'' =
             (let extension = pop (splitOn CHR ''.'' (toLowerCase ''Https://example.com/book.pdf''))
              in if extension = Some ''pdf'' then Inr PDFDocumentLoader
                 else if extension = Some ''epub'' then Inr EPUBDocumentLoader
                 else Inl (UnsupportedFileType extension))"
    using v2 extension_case_insensitive_scheme_case_sensitive [of "''Https://example.com/book.pdf''"]
    by blast
  have r3: "createLoaderFromFileName ''Report.PDF'' = createLoaderFromFileName ''report.pdf''"
    using v3 extension_case_insensitive_scheme_case_sensitive [of "''Report.PDF''" "''report.pdf''"]
    by blast
  from r1 r2 r3 show ?thesis by (simp add: str_eval)
qed

section \<open>Selection of the extraction strategy\<close>

text \<open>
  What the code computes: a hint is used as given, and without one Playwright is chosen
  exactly when the lower-cased URL string contains one of the listed names somewhere.
\<close>

lemma selectedEngine_substring:
  "selectedEngine u (Some e) = e
   \<and> (selectedEngine u None = Playwright \<longleftrightarrow>
        (\<exists>d \<in> set PLAYWRIGHT_REQUIRED_DOMAINS. \<exists>pre post. toLowerCase u = pre @ d @ post))"
  by (auto simp: selectedEngine_def detectScraperEngine_def list_ex_iff includesStr_iff)

text \<open>
  Claim C3 at concrete URLs. The code does not look at the domain of the URL, it searches
  the whole lower-cased URL for the listed names. \<open>https://netflix.com/title\<close> has the
  domain \<open>netflix.com\<close>, which is not in the list, and is rendered with Playwright
  because \<open>netflix.com\<close> contains \<open>x.com\<close>; \<open>https://example.org/x.com\<close> is
  rendered with Playwright because of its path. The selection of the specification
  gives the static-fetch strategy to both.
\<close>

theorem engine_selection_failing_input:
  "detectScraperEngine ''https://netflix.com/title'' = Playwright
   \<and> scrapeUrl env ''https://netflix.com/title'' None
       = playwrightScrape env ''https://netflix.com/title''
   \<and> spec_urlDomain ''https://netflix.com/title'' = ''netflix.com''
   \<and> ''netflix.com'' \<notin> set PLAYWRIGHT_REQUIRED_DOMAINS
   \<and> spec_selectStrategy ''https://netflix.com/title'' None = Cheerio
   \<and> selectedEngine ''https://example.org/x.com'' None = Playwright
   \<and> spec_urlDomain ''https://example.org/x.com'' = ''example.org''
   \<and> spec_selectStrategy ''https://example.org/x.com'' None = Cheerio"
  by (simp add: scrapeUrl_def engine_eval spec_selectStrategy_def spec_domainListed_def
                spec_urlDomain_def str_eval)

section \<open>Embedding in batches\<close>

lemma ceil50: "j < (n + 49) div 50 \<longleftrightarrow> 50 * j < (n::nat)"
proof -
  have "Suc j \<le> (n + 49) div 50 \<longleftrightarrow> Suc j * 50 \<le> n + 49"
    by (rule less_eq_div_iff_mult_less_eq) simp
  then show ?thesis by auto
qed

lemma length_batchAt: "length (batchAt xs k) = min 50 (length xs - 50 * k)"
  by (simp add: batchAt_def slice_def)

lemma concat_batchAt:
  "j \<le> (length xs + 49) div 50 \<Longrightarrow>
   concat (map (batchAt xs) [j..<(length xs + 49) div 50]) = drop (50 * j) xs"
proof (induction "(length xs + 49) div 50 - j" arbitrary: j)
  case 0
  then have "j = (length xs + 49) div 50" by simp
  then have "\<not> 50 * j < length xs" using ceil50 [of j "length xs"] by simp
  then show ?case using \<open>j = (length xs + 49) div 50\<close> by simp
next
  case (Suc d)
  then have lt: "j < (length xs + 49) div 50" by simp
  from Suc have d: "d = (length xs + 49) div 50 - Suc j" by simp
  from lt have le: "Suc j \<le> (length xs + 49) div 50" by simp
  have ih: "concat (map (batchAt xs) [Suc j..<(length xs + 49) div 50]) = drop (50 * Suc j) xs"
    by (rule Suc.hyps(1) [OF d le])
  have "batchAt xs j @ drop (50 * Suc j) xs = drop (50 * j) xs"
  proof -
    have "batchAt xs j = take 50 (drop (50 * j) xs)" by (simp add: batchAt_def slice_def)
    moreover have "drop (50 * Suc j) xs = drop 50 (drop (50 * j) xs)"
      by (simp add: add.commute)
    ultimately show ?thesis by (simp only: append_take_drop_id)
  qed
  moreover have "[j..<(length xs + 49) div 50] = j # [Suc j..<(length xs + 49) div 50]"
    using lt by (rule upt_conv_Cons)
  ultimately show ?case using ih by simp
qed

lemma embedBatches_run:
  fixes embedFn :: "nat \<Rightarrow> string list \<Rightarrow> string + 'a list list"
  assumes ok: "\<forall>k < (length texts + 49) div 50. \<exists>vs. embedFn k (batchAt texts k) = Inr vs"
  shows "j \<le> (length texts + 49) div 50 \<Longrightarrow> length (embedCalls w) = j \<Longrightarrow>
     embedBatches embedFn texts (50 * j) acc w =
       (Inr (acc @ concat (map (answerAt embedFn texts) [j..<(length texts + 49) div 50])),
        w\<lparr>embedCalls := embedCalls w @ map (batchAt texts) [j..<(length texts + 49) div 50]\<rparr>)"
proof (induction "(length texts + 49) div 50 - j" arbitrary: j acc w)
  case 0
  then have "j = (length texts + 49) div 50" by simp
  then have "\<not> 50 * j < length texts" using ceil50 [of j "length texts"] by simp
  then show ?case using \<open>j = (length texts + 49) div 50\<close>
    by (subst embedBatches.simps) simp
next
  case (Suc d)
  then have lt: "j < (length texts + 49) div 50" by simp
  then have lt': "50 * j < length texts" by (simp add: ceil50)
  from ok lt obtain vs where vs: "embedFn j (batchAt texts j) = Inr vs" by blast
  let ?w' = "w\<lparr>embedCalls := embedCalls w @ [batchAt texts j]\<rparr>"
  from Suc have d: "d = (length texts + 49) div 50 - Suc j" by simp
  have len: "length (embedCalls ?w') = Suc j" using Suc.prems by simp
  from lt have le: "Suc j \<le> (length texts + 49) div 50" by simp
  have ih: "embedBatches embedFn texts (50 * Suc j) (acc @ vs) ?w' =
       (Inr ((acc @ vs) @ concat (map (answerAt embedFn texts) [Suc j..<(length texts + 49) div 50])),
        ?w'\<lparr>embedCalls := embedCalls ?w' @ map (batchAt texts) [Suc j..<(length texts + 49) div 50]\<rparr>)"
    by (rule Suc.hyps(1) [OF d le len])
  have step: "embedBatches embedFn texts (50 * j) acc w =
              embedBatches embedFn texts (50 * Suc j) (acc @ vs) ?w'"
    using lt' vs
    apply (subst embedBatches.simps)
    apply (simp only: EMBEDDING_BATCH_SIZE_def batchAt_def Let_def Suc.prems if_True sum.case mult_Suc_right)
    apply (simp only: add.commute)
    done
  have a: "answerAt embedFn texts j = vs" by (simp add: answerAt_def vs)
  have u: "[j..<(length texts + 49) div 50] = j # [Suc j..<(length texts + 49) div 50]"
    using lt by (rule upt_conv_Cons)
  show ?case
    unfolding step ih u by (simp add: a)
qed

lemma nth_concat_blocks:
  assumes m: "0 < (m::nat)"
  shows "(\<forall>k < length xss. length (xss ! k) \<le> m) \<Longrightarrow>
         (\<forall>k. Suc k < length xss \<longrightarrow> length (xss ! k) = m) \<Longrightarrow>
         i < length (concat xss) \<Longrightarrow>
         concat xss ! i = xss ! (i div m) ! (i mod m)"
proof (induction xss arbitrary: i)
  case Nil
  then show ?case by simp
next
  case (Cons xs rest)
  have le: "length xs \<le> m" using Cons.prems(1) by auto
  show ?case
  proof (cases "i < length xs")
    case True
    with le have "i div m = 0" "i mod m = i" by simp_all
    with True show ?thesis by (simp add: nth_append)
  next
    case False
    with Cons.prems(3) have ne: "rest \<noteq> []" by auto
    then have len: "length xs = m" using Cons.prems(2) [rule_format, of 0] by simp
    with False have ge: "m \<le> i" by simp
    have p1: "\<forall>k < length rest. length (rest ! k) \<le> m"
      using Cons.prems(1) by auto
    have p2: "\<forall>k. Suc k < length rest \<longrightarrow> length (rest ! k) = m"
      using Cons.prems(2) by auto
    have p3: "i - m < length (concat rest)"
      using Cons.prems(3) len ge by simp
    have ih: "concat rest ! (i - m) = rest ! ((i - m) div m) ! ((i - m) mod m)"
      by (rule Cons.IH [OF p1 p2 p3])
    have d: "i div m = Suc ((i - m) div m)"
      using ge m by (simp add: le_div_geq)
    have r: "i mod m = (i - m) mod m"
      using ge by (simp add: le_mod_geq)
    have "concat (xs # rest) ! i = concat rest ! (i - m)"
      using False len by (simp add: nth_append)
    then show ?thesis by (simp add: ih d r)
  qed
qed

lemma batchAt_full: "Suc k < (length xs + 49) div 50 \<Longrightarrow> length (batchAt xs k) = 50"
proof -
  assume "Suc k < (length xs + 49) div 50"
  then have "50 * Suc k < length xs" by (simp only: ceil50)
  then show ?thesis by (simp add: length_batchAt)
qed

lemma batchAt_full_div: "k < length xs div 50 \<Longrightarrow> length (batchAt xs k) = 50"
proof -
  assume "k < length xs div 50"
  then have "Suc k \<le> length xs div 50" by simp
  moreover have "Suc k \<le> length xs div 50 \<longleftrightarrow> Suc k * 50 \<le> length xs"
    by (rule less_eq_div_iff_mult_less_eq) simp
  ultimately have "Suc k * 50 \<le> length xs" by blast
  then show ?thesis by (simp add: length_batchAt)
qed

lemma batchAt_last:
  assumes "length xs mod 50 \<noteq> 0"
  shows "(length xs + 49) div 50 = Suc (length xs div 50)"
    and "length (batchAt xs (length xs div 50)) = length xs mod 50"
proof -
  let ?n = "length xs"
  have dm: "?n = 50 * (?n div 50) + ?n mod 50" by simp
  have lt: "?n mod 50 < 50" by simp
  have "(?n + 49) div 50 = (50 * (?n div 50) + (?n mod 50 + 49)) div 50"
    by (simp add: add.assoc [symmetric])
  also have "\<dots> = ?n div 50 + (?n mod 50 + 49) div 50"
    by (simp only: div_mult_self4 [of 50] zero_neq_numeral not_False_eq_True) 
  also have "(?n mod 50 + 49) div 50 = 1"
  proof -
    have "50 \<le> ?n mod 50 + 49" using assms by simp
    moreover have "?n mod 50 + 49 < 100" using lt by simp
    ultimately show ?thesis
      by (simp add: div_nat_eqI)
  qed
  finally show "(?n + 49) div 50 = Suc (?n div 50)" by simp
  have "?n - 50 * (?n div 50) = ?n mod 50"
    by (simp add: minus_mult_div_eq_mod)
  then show "length (batchAt xs (?n div 50)) = ?n mod 50"
    using lt by (simp add: length_batchAt)
qed

text \<open>
  Claim C5. Take \<open>n\<close> texts, and assume that each call the loop makes (the \<open>k\<close>-th call
  receives the \<open>k\<close>-th group of fifty texts) returns one vector per text it was sent. Then
  the loop returns, having made exactly \<open>(n + 49) div 50\<close> calls, the ceiling of \<open>n / 50\<close>, one
  after the other: the first \<open>n div 50\<close> carry 50 texts each, a last one carries the
  remaining \<open>n mod 50\<close> texts when that is not zero, and together they carry the texts in
  order. The result is the concatenation of the answers; it has \<open>n\<close> vectors, and vector
  \<open>i\<close> is the one returned at position \<open>i mod 50\<close> of call \<open>i div 50\<close>, which is where text
  \<open>i\<close> was sent.
\<close>

theorem embedding_batches:
  fixes embedFn :: "nat \<Rightarrow> string list \<Rightarrow> string + 'a list list"
  assumes ok: "\<forall>k < (length texts + 49) div 50.
                 \<exists>vs. embedFn k (batchAt texts k) = Inr vs \<and> length vs = length (batchAt texts k)"
  shows "\<exists>out w. embedBatches embedFn texts 0 [] world0 = (Inr out, w)
      \<and> embedCalls w = map (batchAt texts) [0..<(length texts + 49) div 50]
      \<and> length (embedCalls w) = (length texts + 49) div 50
      \<and> (\<forall>k < length texts div 50. length (embedCalls w ! k) = 50)
      \<and> (length texts mod 50 \<noteq> 0 \<longrightarrow> length (last (embedCalls w)) = length texts mod 50)
      \<and> concat (embedCalls w) = texts
      \<and> out = concat (map (answerAt embedFn texts) [0..<(length texts + 49) div 50])
      \<and> length out = length texts
      \<and> (\<forall>i < length texts.
            out ! i = answerAt embedFn texts (i div 50) ! (i mod 50)
            \<and> texts ! i = batchAt texts (i div 50) ! (i mod 50))"
proof -
  let ?N = "(length texts + 49) div 50"
  let ?calls = "map (batchAt texts) [0..<?N]"
  let ?out = "concat (map (answerAt embedFn texts) [0..<?N])"
  let ?w = "(world0 :: 'a world)\<lparr>embedCalls := ?calls\<rparr>"
  have ok': "\<forall>k < ?N. \<exists>vs. embedFn k (batchAt texts k) = Inr vs" using ok by blast
  have run: "embedBatches embedFn texts 0 [] world0 = (Inr ?out, ?w)"
    using embedBatches_run [of texts embedFn 0 world0 "[]"] ok' by (simp add: world0_def)
  have calls: "embedCalls ?w = ?calls" by simp
  have ans_len: "\<forall>k < ?N. length (answerAt embedFn texts k) = length (batchAt texts k)"
  proof (intro allI impI)
    fix k assume "k < ?N"
    with ok obtain vs where "embedFn k (batchAt texts k) = Inr vs"
      "length vs = length (batchAt texts k)" by blast
    then show "length (answerAt embedFn texts k) = length (batchAt texts k)"
      by (simp add: answerAt_def)
  qed
  have cc: "concat ?calls = texts"
    using concat_batchAt [of 0 texts] by simp
  have lenN: "length ?calls = ?N" by simp
  have full: "\<forall>k < length texts div 50. length (?calls ! k) = 50"
  proof (intro allI impI)
    fix k assume k: "k < length texts div 50"
    have "length texts div 50 \<le> ?N" by (rule div_le_mono) simp
    with k have "k < ?N" by simp
    then have "?calls ! k = batchAt texts k" by simp
    with k show "length (?calls ! k) = 50" by (simp add: batchAt_full_div)
  qed
  have lst: "length texts mod 50 \<noteq> 0 \<longrightarrow> length (last ?calls) = length texts mod 50"
  proof
    assume r: "length texts mod 50 \<noteq> 0"
    then have N: "?N = Suc (length texts div 50)" by (rule batchAt_last(1))
    then have "last ?calls = batchAt texts (length texts div 50)"
      by (simp add: last_map)
    then show "length (last ?calls) = length texts mod 50"
      using batchAt_last(2) [OF r] by simp
  qed
  have maplen: "map length (map (answerAt embedFn texts) [0..<?N]) = map length ?calls"
    using ans_len by simp
  have out_len: "length ?out = length texts"
  proof -
    have "length ?out = sum_list (map length (map (answerAt embedFn texts) [0..<?N]))"
      by (simp only: length_concat)
    also have "\<dots> = sum_list (map length ?calls)" by (simp only: maplen)
    also have "\<dots> = length (concat ?calls)" by (simp only: length_concat)
    finally show ?thesis by (simp only: cc)
  qed
  have pw: "\<forall>i < length texts.
            ?out ! i = answerAt embedFn texts (i div 50) ! (i mod 50)
            \<and> texts ! i = batchAt texts (i div 50) ! (i mod 50)"
  proof (intro allI impI)
    fix i assume i: "i < length texts"
    have "50 * (i div 50) \<le> i" by simp
    with i have "50 * (i div 50) < length texts" by simp
    then have kN: "i div 50 < ?N" by (simp only: ceil50)
    have b1: "\<forall>k < length ?calls. length (?calls ! k) \<le> 50"
      by (simp add: length_batchAt)
    have b2: "\<forall>k. Suc k < length ?calls \<longrightarrow> length (?calls ! k) = 50"
      by (simp add: batchAt_full)
    have "concat ?calls ! i = ?calls ! (i div 50) ! (i mod 50)"
      by (rule nth_concat_blocks [OF _ b1 b2]) (simp_all add: cc i)
    then have t: "texts ! i = batchAt texts (i div 50) ! (i mod 50)"
      using kN by (simp add: cc)
    let ?as = "map (answerAt embedFn texts) [0..<?N]"
    have a1: "\<forall>k < length ?as. length (?as ! k) \<le> 50"
      using ans_len by (simp add: length_batchAt)
    have a2: "\<forall>k. Suc k < length ?as \<longrightarrow> length (?as ! k) = 50"
      using ans_len by (simp add: batchAt_full)
    have "concat ?as ! i = ?as ! (i div 50) ! (i mod 50)"
      by (rule nth_concat_blocks [OF _ a1 a2]) (simp_all add: out_len i)
    then have "?out ! i = answerAt embedFn texts (i div 50) ! (i mod 50)"
      using kN by simp
    with t show "?out ! i = answerAt embedFn texts (i div 50) ! (i mod 50)
            \<and> texts ! i = batchAt texts (i div 50) ! (i mod 50)" by blast
  qed
  show ?thesis
  proof (rule exI [of _ ?out], rule exI [of _ ?w], intro conjI)
    show "embedBatches embedFn texts 0 [] world0 = (Inr ?out, ?w)" by (rule run)
    show "embedCalls ?w = ?calls" by (rule calls)
    show "length (embedCalls ?w) = ?N" unfolding calls by (rule lenN)
    show "\<forall>k < length texts div 50. length (embedCalls ?w ! k) = 50"
      unfolding calls by (rule full)
    show "length texts mod 50 \<noteq> 0 \<longrightarrow> length (last (embedCalls ?w)) = length texts mod 50"
      unfolding calls by (rule lst)
    show "concat (embedCalls ?w) = texts" unfolding calls by (rule cc)
    show "?out = ?out" by (rule refl)
    show "length ?out = length texts" by (rule out_len)
    show "\<forall>i < length texts.
            ?out ! i = answerAt embedFn texts (i div 50) ! (i mod 50)
            \<and> texts ! i = batchAt texts (i div 50) ! (i mod 50)" by (rule pw)
  qed
qed

theorem embedding_batches_witness:
  "\<exists>out w. embedBatches (\<lambda>k batch. Inr (map (\<lambda>t. [int (length t)]) batch))
              (replicate 120 ''some text'') 0 [] world0 = (Inr out, w)
     \<and> map length (embedCalls w) = [50, 50, 20]
     \<and> length out = 120"
proof -
  let ?f = "\<lambda>(k::nat) batch. (Inr (map (\<lambda>t. [int (length t)]) batch) :: string + int list list)"
  let ?texts = "replicate 120 ''some text''"
  have N: "(length ?texts + 49) div 50 = 3" by simp
  have h: "\<forall>k < (length ?texts + 49) div 50.
             \<exists>vs. ?f k (batchAt ?texts k) = Inr vs \<and> length vs = length (batchAt ?texts k)"
    by simp
  from embedding_batches [of ?texts ?f, OF h]
  obtain out w where
    r: "embedBatches ?f ?texts 0 [] world0 = (Inr out, w)"
    and c: "embedCalls w = map (batchAt ?texts) [0..<(length ?texts + 49) div 50]"
    and l: "length out = length ?texts"
    by blast
  have "[0..<3] = [0, 1, 2]" by (simp add: upt_rec)
  with c N have "map length (embedCalls w) = [50, 50, 20]"
    by (simp add: length_batchAt)
  with r l show ?thesis by auto
qed

section \<open>Writing in batches, with retries\<close>

lemma upsertWithRetry_three:
  "upsertWithRetry up batch 3 1000 w =
     (case up (attempts w) batch of
        None \<Rightarrow> (None, w\<lparr>committed := committed w @ batch, attempts := attempts w + 1\<rparr>)
      | Some e1 \<Rightarrow>
          (case up (attempts w + 1) batch of
             None \<Rightarrow> (None, w\<lparr>committed := committed w @ batch, attempts := attempts w + 2,
                              delays := delays w @ [1000]\<rparr>)
           | Some e2 \<Rightarrow>
               (case up (attempts w + 2) batch of
                  None \<Rightarrow> (None, w\<lparr>committed := committed w @ batch,
                                   attempts := attempts w + 3,
                                   delays := delays w @ [1000, 2000]\<rparr>)
                | Some e3 \<Rightarrow> (Some e3, w\<lparr>attempts := attempts w + 3,
                                           delays := delays w @ [1000, 2000]\<rparr>))))"
proof -
  have three: "(3::nat) = Suc (Suc (Suc 0))" by simp
  show ?thesis
    unfolding three
    by (simp add: upsertWithRetry.simps Let_def split: option.splits)
qed

lemma upsertWithRetry_keeps:
  "\<exists>ps. committed (snd (upsertWithRetry up batch retries delay w)) = committed w @ ps"
proof (induction up batch retries delay w rule: upsertWithRetry.induct)
  case (1 up batch retries delay w)
  show ?case
  proof (cases "retries > 0")
    case False
    then show ?thesis by (subst upsertWithRetry.simps) simp
  next
    case pos: True
    show ?thesis
    proof (cases "up (attempts w) batch")
      case None
      with pos show ?thesis by (subst upsertWithRetry.simps) simp
    next
      case (Some e)
      show ?thesis
      proof (cases "retries - 1 = 0")
        case True
        with pos Some show ?thesis by (subst upsertWithRetry.simps) simp
      next
        case False
        have "\<exists>ps. committed (snd (upsertWithRetry up batch (retries - 1) (delay * 2)
                 (w\<lparr>attempts := Suc (attempts w), delays := delays w @ [delay]\<rparr>)))
               = committed (w\<lparr>attempts := Suc (attempts w), delays := delays w @ [delay]\<rparr>) @ ps"
          using "1.IH" [OF pos refl Some refl False] by simp
        with pos Some False show ?thesis
          by (subst upsertWithRetry.simps) (simp add: Let_def)
      qed
    qed
  qed
qed

lemma insertBatches_keeps:
  "\<exists>ps. committed (snd (insertBatches up data i w)) = committed w @ ps"
proof (induction up data i w rule: insertBatches.induct)
  case (1 up data i w)
  show ?case
  proof (cases "i < length data")
    case False
    then show ?thesis by (subst insertBatches.simps) simp
  next
    case True
    let ?b = "slice data i (i + BATCH_SIZE)"
    obtain r w' where u: "upsertWithRetry up ?b 3 1000 w = (r, w')" by (cases "upsertWithRetry up ?b 3 1000 w")
    from upsertWithRetry_keeps [of up ?b 3 1000 w] u
    obtain ps where ps: "committed w' = committed w @ ps" by auto
    show ?thesis
    proof (cases r)
      case (Some e)
      with True u ps show ?thesis by (subst insertBatches.simps) (simp add: Let_def)
    next
      case None
      from "1.IH" [OF True refl u [symmetric, unfolded None] refl]
      obtain qs where "committed (snd (insertBatches up data (i + BATCH_SIZE) w')) = committed w' @ qs"
        by blast
      with True u None ps show ?thesis
        by (subst insertBatches.simps) (simp add: Let_def)
    qed
  qed
qed

lemma insertBatches_step:
  assumes "i < length data"
    and "upsertWithRetry up (slice data i (i + 50)) 3 1000 w = (r, w1)"
  shows "insertBatches up data i w =
           (case r of Some e \<Rightarrow> (Some e, w1) | None \<Rightarrow> insertBatches up data (i + 50) w1)"
  using assms
  by (subst insertBatches.simps) (simp add: Let_def BATCH_SIZE_def split: option.splits)

lemma upsertWithRetry_three_None:
  assumes "upsertWithRetry up b 3 1000 w = (None, w1)"
  shows "committed w1 = committed w @ b"
  using assms unfolding upsertWithRetry_three
  by (auto split: option.splits)

lemma upsertWithRetry_three_Some:
  assumes "upsertWithRetry up b 3 1000 w = (Some e, w1)"
  shows "committed w1 = committed w \<and> attempts w1 = attempts w + 3
         \<and> delays w1 = delays w @ [1000, 2000]
         \<and> (\<exists>e1 e2. up (attempts w) b = Some e1 \<and> up (attempts w + 1) b = Some e2)
         \<and> up (attempts w + 2) b = Some e"
  using assms unfolding upsertWithRetry_three
  by (auto split: option.splits)

lemma insertBatches_None:
  "insertBatches up data i w = (None, w') \<Longrightarrow> committed w' = committed w @ drop i data"
proof (induction "length data - i" arbitrary: i w rule: less_induct)
  case less
  show ?case
  proof (cases "i < length data")
    case False
    with less.prems show ?thesis by (simp add: insertBatches.simps)
  next
    case True
    obtain r w1 where u: "upsertWithRetry up (slice data i (i + 50)) 3 1000 w = (r, w1)"
      by (cases "upsertWithRetry up (slice data i (i + 50)) 3 1000 w")
    from insertBatches_step [OF True u] less.prems
    have r: "r = None" and rest: "insertBatches up data (i + 50) w1 = (None, w')"
      by (auto split: option.splits)
    from u r have c1: "committed w1 = committed w @ slice data i (i + 50)"
      by (simp add: upsertWithRetry_three_None)
    have "length data - (i + 50) < length data - i" using True by simp
    then have "committed w' = committed w1 @ drop (i + 50) data"
      using rest by (rule less.hyps)
    moreover have "slice data i (i + 50) @ drop (i + 50) data = drop i data"
    proof -
      have "slice data i (i + 50) @ drop (i + 50) data
            = take 50 (drop i data) @ drop 50 (drop i data)"
        by (simp add: slice_def add.commute)
      then show ?thesis by (simp only: append_take_drop_id)
    qed
    ultimately show ?thesis using c1 by simp
  qed
qed

lemma insertBatches_Some:
  "insertBatches up data i w = (Some e, w') \<Longrightarrow>
   \<exists>j. i + 50 * j < length data
     \<and> committed w' = committed w @ take (50 * j) (drop i data)
     \<and> 3 \<le> attempts w'
     \<and> (\<exists>e1 e2. up (attempts w' - 3) (slice data (i + 50 * j) (i + 50 * j + 50)) = Some e1
              \<and> up (attempts w' - 2) (slice data (i + 50 * j) (i + 50 * j + 50)) = Some e2)
     \<and> up (attempts w' - 1) (slice data (i + 50 * j) (i + 50 * j + 50)) = Some e"
proof (induction "length data - i" arbitrary: i w rule: less_induct)
  case less
  show ?case
  proof (cases "i < length data")
    case False
    with less.prems show ?thesis by (simp add: insertBatches.simps)
  next
    case True
    obtain r w1 where u: "upsertWithRetry up (slice data i (i + 50)) 3 1000 w = (r, w1)"
      by (cases "upsertWithRetry up (slice data i (i + 50)) 3 1000 w")
    show ?thesis
    proof (cases r)
      case (Some e')
      with insertBatches_step [OF True u] less.prems have "e' = e" "w1 = w'" by simp_all
      with u Some have "upsertWithRetry up (slice data i (i + 50)) 3 1000 w = (Some e, w')" by simp
      from upsertWithRetry_three_Some [OF this]
      have "i + 50 * 0 < length data
         \<and> committed w' = committed w @ take (50 * 0) (drop i data)
         \<and> 3 \<le> attempts w'
         \<and> (\<exists>e1 e2. up (attempts w' - 3) (slice data (i + 50 * 0) (i + 50 * 0 + 50)) = Some e1
              \<and> up (attempts w' - 2) (slice data (i + 50 * 0) (i + 50 * 0 + 50)) = Some e2)
         \<and> up (attempts w' - 1) (slice data (i + 50 * 0) (i + 50 * 0 + 50)) = Some e"
        using True by auto
      then show ?thesis by (rule exI)
    next
      case None
      with insertBatches_step [OF True u] less.prems
      have rest: "insertBatches up data (i + 50) w1 = (Some e, w')" by simp
      from u None have c1: "committed w1 = committed w @ slice data i (i + 50)"
        by (simp add: upsertWithRetry_three_None)
      have "length data - (i + 50) < length data - i" using True by simp
      from less.hyps [OF this rest]
      obtain j where j: "i + 50 + 50 * j < length data"
        "committed w' = committed w1 @ take (50 * j) (drop (i + 50) data)"
        "3 \<le> attempts w'"
        "\<exists>e1 e2. up (attempts w' - 3) (slice data (i + 50 + 50 * j) (i + 50 + 50 * j + 50)) = Some e1
              \<and> up (attempts w' - 2) (slice data (i + 50 + 50 * j) (i + 50 + 50 * j + 50)) = Some e2"
        "up (attempts w' - 1) (slice data (i + 50 + 50 * j) (i + 50 + 50 * j + 50)) = Some e"
        by blast
      have idx: "i + 50 + 50 * j = i + 50 * Suc j" by simp
      have "slice data i (i + 50) @ take (50 * j) (drop (i + 50) data)
            = take (50 * Suc j) (drop i data)"
      proof -
        have "50 * Suc j = 50 + 50 * j" by simp
        then have "take (50 * Suc j) (drop i data)
                       = take 50 (drop i data) @ take (50 * j) (drop 50 (drop i data))"
          by (simp only: take_add)
        then show ?thesis by (simp add: slice_def add.commute)
      qed
      with j(2) c1 have c: "committed w' = committed w @ take (50 * Suc j) (drop i data)"
        by simp
      from j(1,3,4,5) c show ?thesis
        unfolding idx by (intro exI [of _ "Suc j"]) blast
    qed
  qed
qed

text \<open>
  Claim C2. For the batch that starts at index \<open>i\<close>, the upsert is requested at most three
  times: after a first failure the loop sleeps 1000 ms, after a second 2000 ms; as soon as
  one request succeeds the batch is committed and the loop goes on with the batch at
  \<open>i + 50\<close>; when the third request fails too, its error is the result and nothing more is
  requested. The loop only ever appends to what is committed. When it ends without error
  every batch is committed, in order. When it ends with an error, the batches before the
  failing one are committed, the last three requests were made for the failing batch, all
  three failed, and the error is that of the last one. \<open>processDocument\<close> then fails with
  that error, and the world it leaves is the one the loop left: the committed batches
  stay committed.
\<close>

theorem upsert_retry_policy:
  "(i < length data \<longrightarrow>
      insertBatches up data i w =
        (let batch = slice data i (i + 50); k = attempts w
         in case up k batch of
              None \<Rightarrow>
                insertBatches up data (i + 50)
                  (w\<lparr>committed := committed w @ batch, attempts := k + 1\<rparr>)
            | Some e1 \<Rightarrow>
                (case up (k + 1) batch of
                   None \<Rightarrow>
                     insertBatches up data (i + 50)
                       (w\<lparr>committed := committed w @ batch, attempts := k + 2,
                          delays := delays w @ [1000]\<rparr>)
                 | Some e2 \<Rightarrow>
                     (case up (k + 2) batch of
                        None \<Rightarrow>
                          insertBatches up data (i + 50)
                            (w\<lparr>committed := committed w @ batch, attempts := k + 3,
                               delays := delays w @ [1000, 2000]\<rparr>)
                      | Some e3 \<Rightarrow>
                          (Some e3, w\<lparr>attempts := k + 3,
                                      delays := delays w @ [1000, 2000]\<rparr>)))))
   \<and> (\<not> i < length data \<longrightarrow> insertBatches up data i w = (None, w))
   \<and> (\<exists>ps. committed (snd (insertBatches up data i w)) = committed w @ ps)
   \<and> (\<forall>w'. insertBatches up data i w = (None, w') \<longrightarrow>
          committed w' = committed w @ drop i data)
   \<and> (\<forall>e w'. insertBatches up data i w = (Some e, w') \<longrightarrow>
          (\<exists>j. i + 50 * j < length data
             \<and> committed w' = committed w @ take (50 * j) (drop i data)
             \<and> 3 \<le> attempts w'
             \<and> (\<exists>e1 e2.
                   up (attempts w' - 3) (slice data (i + 50 * j) (i + 50 * j + 50)) = Some e1
                 \<and> up (attempts w' - 2) (slice data (i + 50 * j) (i + 50 * j + 50)) = Some e2)
             \<and> up (attempts w' - 1) (slice data (i + 50 * j) (i + 50 * j + 50)) = Some e))
   \<and> (\<forall>chunks vs w1 e w2.
          loadAndSplit env dto = Inr chunks \<and> validChunks chunks \<noteq> []
          \<and> embedBatches (embedDocuments env)
               (map chunk_text
                  (documentsChunksWithMetadata env (fileName dto) (validChunks chunks)))
               0 [] world0 = (Inr vs, w1)
          \<and> validData (documentsChunksWithMetadata env (fileName dto) (validChunks chunks)) vs
               \<noteq> []
          \<and> insertBatches (upsert env)
               (validData (documentsChunksWithMetadata env (fileName dto) (validChunks chunks))
                  vs) 0 w1 = (Some e, w2)
          \<longrightarrow> processDocument env dto = (Inl (External e), w2))"
proof (intro conjI)
  show "i < length data \<longrightarrow>
      insertBatches up data i w =
        (let batch = slice data i (i + 50); k = attempts w
         in case up k batch of
              None \<Rightarrow>
                insertBatches up data (i + 50)
                  (w\<lparr>committed := committed w @ batch, attempts := k + 1\<rparr>)
            | Some e1 \<Rightarrow>
                (case up (k + 1) batch of
                   None \<Rightarrow>
                     insertBatches up data (i + 50)
                       (w\<lparr>committed := committed w @ batch, attempts := k + 2,
                          delays := delays w @ [1000]\<rparr>)
                 | Some e2 \<Rightarrow>
                     (case up (k + 2) batch of
                        None \<Rightarrow>
                          insertBatches up data (i + 50)
                            (w\<lparr>committed := committed w @ batch, attempts := k + 3,
                               delays := delays w @ [1000, 2000]\<rparr>)
                      | Some e3 \<Rightarrow>
                          (Some e3, w\<lparr>attempts := k + 3,
                                      delays := delays w @ [1000, 2000]\<rparr>))))"
  proof
    assume i: "i < length data"
    show "insertBatches up data i w =
        (let batch = slice data i (i + 50); k = attempts w
         in case up k batch of
              None \<Rightarrow>
                insertBatches up data (i + 50)
                  (w\<lparr>committed := committed w @ batch, attempts := k + 1\<rparr>)
            | Some e1 \<Rightarrow>
                (case up (k + 1) batch of
                   None \<Rightarrow>
                     insertBatches up data (i + 50)
                       (w\<lparr>committed := committed w @ batch, attempts := k + 2,
                          delays := delays w @ [1000]\<rparr>)
                 | Some e2 \<Rightarrow>
                     (case up (k + 2) batch of
                        None \<Rightarrow>
                          insertBatches up data (i + 50)
                            (w\<lparr>committed := committed w @ batch, attempts := k + 3,
                               delays := delays w @ [1000, 2000]\<rparr>)
                      | Some e3 \<Rightarrow>
                          (Some e3, w\<lparr>attempts := k + 3,
                                      delays := delays w @ [1000, 2000]\<rparr>))))"
      using i
      by (subst insertBatches.simps)
         (simp add: Let_def BATCH_SIZE_def upsertWithRetry_three split: option.splits)
  qed
  show "\<not> i < length data \<longrightarrow> insertBatches up data i w = (None, w)"
    by (simp add: insertBatches.simps)
  show "\<exists>ps. committed (snd (insertBatches up data i w)) = committed w @ ps"
    by (rule insertBatches_keeps)
  show "\<forall>w'. insertBatches up data i w = (None, w') \<longrightarrow>
          committed w' = committed w @ drop i data"
    by (blast intro: insertBatches_None)
  show "\<forall>e w'. insertBatches up data i w = (Some e, w') \<longrightarrow>
          (\<exists>j. i + 50 * j < length data
             \<and> committed w' = committed w @ take (50 * j) (drop i data)
             \<and> 3 \<le> attempts w'
             \<and> (\<exists>e1 e2.
                   up (attempts w' - 3) (slice data (i + 50 * j) (i + 50 * j + 50)) = Some e1
                 \<and> up (attempts w' - 2) (slice data (i + 50 * j) (i + 50 * j + 50)) = Some e2)
             \<and> up (attempts w' - 1) (slice data (i + 50 * j) (i + 50 * j + 50)) = Some e)"
    by (intro allI impI) (rule insertBatches_Some)
  show "\<forall>chunks vs w1 e w2.
          loadAndSplit env dto = Inr chunks \<and> validChunks chunks \<noteq> []
          \<and> embedBatches (embedDocuments env)
               (map chunk_text
                  (documentsChunksWithMetadata env (fileName dto) (validChunks chunks)))
               0 [] world0 = (Inr vs, w1)
          \<and> validData (documentsChunksWithMetadata env (fileName dto) (validChunks chunks)) vs
               \<noteq> []
          \<and> insertBatches (upsert env)
               (validData (documentsChunksWithMetadata env (fileName dto) (validChunks chunks))
                  vs) 0 w1 = (Some e, w2)
          \<longrightarrow> processDocument env dto = (Inl (External e), w2)"
    by (simp add: processDocument_def Let_def)
qed

theorem upsert_retry_policy_witness:
  "insertBatches (\<lambda>k batch. if k < 2 then Some ''busy'' else None) [point_a] 0 world0
     = (None, \<lparr>embedCalls = [], committed = [point_a], attempts = 3, delays = [1000, 2000]\<rparr>)
   \<and> insertBatches (\<lambda>k batch. if k = 0 then None else Some ''unavailable'')
        (replicate 51 point_a) 0 world0
     = (Some ''unavailable'',
        \<lparr>embedCalls = [], committed = replicate 50 point_a, attempts = 4,
         delays = [1000, 2000]\<rparr>)
   \<and> processDocument env_down dto_book
     = (Inl (External ''unavailable''),
        \<lparr>embedCalls = [[''first chunk of text'']], committed = [], attempts = 3,
         delays = [1000, 2000]\<rparr>)"
proof -
  let ?up1 = "\<lambda>(k::nat) (batch :: int point list). if k < 2 then Some ''busy'' else None"
  let ?up2 = "\<lambda>(k::nat) (batch :: int point list). if k = 0 then None else Some ''unavailable''"
  have a: "insertBatches ?up1 [point_a] 0 world0
     = (None, \<lparr>embedCalls = [], committed = [point_a], attempts = 3, delays = [1000, 2000]\<rparr>)"
  proof -
    let ?w3 = "\<lparr>embedCalls = [], committed = [point_a], attempts = 3,
                delays = [1000, 2000]\<rparr>"
    have i: "0 < length [point_a]" by simp
    have e: "\<not> 50 < length [point_a]" by simp
    have s1: "insertBatches ?up1 [point_a] 0 world0 = insertBatches ?up1 [point_a] 50 ?w3"
      using upsert_retry_policy [of 0 "[point_a]" ?up1 world0, THEN conjunct1, rule_format, OF i]
      by (simp add: world0_def slice_def Let_def)
    have s2: "insertBatches ?up1 [point_a] 50 ?w3 = (None, ?w3)"
      by (rule upsert_retry_policy [of 50 "[point_a]" ?up1 ?w3, THEN conjunct2, THEN conjunct1,
                rule_format, OF e])
    from s1 s2 show ?thesis by simp
  qed
  have b: "insertBatches ?up2 (replicate 51 point_a) 0 world0
     = (Some ''unavailable'',
        \<lparr>embedCalls = [], committed = replicate 50 point_a, attempts = 4,
         delays = [1000, 2000]\<rparr>)"
  proof -
    let ?w3 = "\<lparr>embedCalls = [], committed = replicate 50 point_a, attempts = 1,
                delays = []\<rparr>"
    have i: "0 < length (replicate 51 point_a)" by simp
    have j: "50 < length (replicate 51 point_a)" by simp
    have s1: "insertBatches ?up2 (replicate 51 point_a) 0 world0
              = insertBatches ?up2 (replicate 51 point_a) 50 ?w3"
      using upsert_retry_policy [of 0 "replicate 51 point_a" ?up2 world0, THEN conjunct1,
              rule_format, OF i]
      by (simp add: world0_def slice_def Let_def)
    have s2: "insertBatches ?up2 (replicate 51 point_a) 50 ?w3
              = (Some ''unavailable'',
                 \<lparr>embedCalls = [], committed = replicate 50 point_a, attempts = 4,
                  delays = [1000, 2000]\<rparr>)"
      using upsert_retry_policy [of 50 "replicate 51 point_a" ?up2 ?w3, THEN conjunct1,
              rule_format, OF j]
      by (simp add: slice_def Let_def)
    from s1 s2 show ?thesis by simp
  qed
  let ?w1 = "\<lparr>embedCalls = [[''first chunk of text'']], committed = [] :: int point list,
              attempts = 0, delays = []\<rparr>"
  let ?w2 = "\<lparr>embedCalls = [[''first chunk of text'']], committed = [] :: int point list,
              attempts = 3, delays = [1000, 2000]\<rparr>"
  let ?chunks = "[\<lparr>pageContent = '' first chunk of text '', pageNumber = Some 1\<rparr>]"
  have h1: "loadAndSplit env_down dto_book = Inr ?chunks"
    by (simp add: env_down_def dto_book_def loadAndSplit_def loader_eval str_eval)
  have h2: "validChunks ?chunks \<noteq> []"
    by (simp add: ingest_eval)
  have h3: "embedBatches (embedDocuments env_down)
               (map chunk_text
                  (documentsChunksWithMetadata env_down (fileName dto_book) (validChunks ?chunks)))
               0 [] world0 = (Inr [replicate 384 0], ?w1)"
    by (simp add: env_down_def dto_book_def ingest_eval)
  have h4: "validData (documentsChunksWithMetadata env_down (fileName dto_book)
               (validChunks ?chunks)) [replicate 384 (0::int)] = [point_a]"
    by (simp add: env_down_def dto_book_def point_a_def ingest_eval)
  have h5: "insertBatches (upsert env_down) [point_a] 0 ?w1 = (Some ''unavailable'', ?w2)"
    by (simp add: env_down_def ingest_eval)
  have c: "processDocument env_down dto_book = (Inl (External ''unavailable''), ?w2)"
  proof -
    note d = upsert_retry_policy [of 0 "[]" "upsert env_down" world0 env_down dto_book,
               THEN conjunct2, THEN conjunct2, THEN conjunct2, THEN conjunct2, THEN conjunct2,
               rule_format, of ?chunks "[replicate 384 0]" ?w1 "''unavailable''" ?w2]
    show ?thesis
      by (rule d) (simp add: h1 h2 h3 h4 h5)
  qed
  from a b c show ?thesis by blast
qed

section \<open>Validation of the dimension\<close>

lemma documentsChunks_length:
  "length (documentsChunksWithMetadata env fn vs) = length vs"
  by (simp add: documentsChunksWithMetadata_def)

lemma documentsChunks_nth:
  "i < length vs \<Longrightarrow>
   documentsChunksWithMetadata env fn vs ! i = chunkWithMetadata env fn (i, vs ! i)"
  by (simp add: documentsChunksWithMetadata_def nth_enumerate_eq)

lemma embedBatches_committed:
  "committed (snd (embedBatches embedFn texts i acc w)) = committed w"
proof (induction embedFn texts i acc w rule: embedBatches.induct)
  case (1 embedFn texts i acc w)
  show ?case
  proof (cases "i < length texts")
    case False
    then show ?thesis by (subst embedBatches.simps) simp
  next
    case True
    let ?b = "slice texts i (i + EMBEDDING_BATCH_SIZE)"
    let ?w' = "w\<lparr>embedCalls := embedCalls w @ [?b]\<rparr>"
    show ?thesis
    proof (cases "embedFn (length (embedCalls w)) ?b")
      case (Inl e)
      with True show ?thesis by (subst embedBatches.simps) (simp add: Let_def)
    next
      case (Inr bs)
      have "committed (snd (embedBatches embedFn texts (i + EMBEDDING_BATCH_SIZE) (acc @ bs) ?w'))
            = committed ?w'"
        by (rule "1.IH" [OF True refl refl Inr])
      with True Inr show ?thesis by (subst embedBatches.simps) (simp add: Let_def)
    qed
  qed
qed

lemma zip_upt_nth: "zip [0..<length xs] xs = map (\<lambda>k. (k, xs ! k)) [0..<length xs]"
  by (rule nth_equalityI) simp_all

lemma validData_eq:
  "validData docs vs = map (pointOf docs vs) (filter (validVector vs) [0..<length docs])"
proof -
  have a: "(\<lambda>x. toPoint vs x \<noteq> None) \<circ> (\<lambda>k. (k, docs ! k)) = validVector vs"
    by (rule ext) (simp add: toPoint_def validVector_def EXPECTED_DIMENSION_def)
  have b: "\<forall>k \<in> set (filter (validVector vs) [0..<length docs]).
             (the \<circ> toPoint vs) (k, docs ! k) = pointOf docs vs k"
    by (simp add: toPoint_def validVector_def EXPECTED_DIMENSION_def pointOf_def)
  have "validData docs vs =
        map (the \<circ> toPoint vs)
          (filter (\<lambda>x. toPoint vs x \<noteq> None) (map (\<lambda>k. (k, docs ! k)) [0..<length docs]))"
    by (simp only: validData_def List.map_filter_def enumerate_eq_zip zip_upt_nth add_0)
  also have "\<dots> = map ((the \<circ> toPoint vs) \<circ> (\<lambda>k. (k, docs ! k)))
                     (filter (validVector vs) [0..<length docs])"
    by (simp only: filter_map a map_map)
  also have "\<dots> = map (pointOf docs vs) (filter (validVector vs) [0..<length docs])"
    using b by (intro map_cong) auto
  finally show ?thesis .
qed

text \<open>
  Claim C1, as the specification states it, fails: the manifest counts the chunks that
  survived the text filter, not the points committed. With two chunks, one vector of 384
  components and one of 256, the call succeeds and commits one point, and the manifest
  says \<open>chunksCount = 2\<close>.
\<close>

theorem dimension_validation_counterexample:
  "map_sum id chunksCount (fst (processDocument env_mixed dto_book)) = Inr 2
   \<and> length (committed (snd (processDocument env_mixed dto_book))) = 1
   \<and> embedCalls (snd (processDocument env_mixed dto_book))
        = [[''first chunk of text'', ''second chunk of text'']]"
  by (simp add: env_mixed_def dto_book_def ingest_eval loader_eval str_eval)

text \<open>
  Claim C1, amended. Take a call that reaches the validation (the document was loaded and
  split, the embedding calls succeeded) with at least one vector of exactly 384
  components, and whose write loop ends without error. Then the call succeeds; the points
  committed are exactly those of the chunks whose vector exists and has 384 components, in
  the order of the chunks, each with the vector of its chunk; and \<open>chunksCount\<close> is the
  number of chunks that survived the text filter, that is the number of committed points
  plus the number of chunks whose vector was dropped.
\<close>

theorem dimension_validation:
  assumes split: "loadAndSplit env dto = Inr chunks"
    and docs: "docs = documentsChunksWithMetadata env (fileName dto) (validChunks chunks)"
    and embedded: "embedBatches (embedDocuments env) (map chunk_text docs) 0 [] world0
                     = (Inr vs, w1)"
    and some_valid: "\<exists>k < length docs. validVector vs k"
    and written: "insertBatches (upsert env) (validData docs vs) 0 w1 = (None, w2)"
  shows "processDocument env dto =
           (Inr \<lparr>success = True, documentId = uuidv4 env 0, chunksCount = length docs,
                 message = ''Documento processado com sucesso!''\<rparr>, w2)
     \<and> committed w2 = map (pointOf docs vs) (filter (validVector vs) [0..<length docs])
     \<and> (\<forall>p \<in> set (committed w2). length (point_vector p) = 384)
     \<and> length docs = length (validChunks chunks)
     \<and> length docs = length (committed w2)
          + length (filter (\<lambda>k. \<not> validVector vs k) [0..<length docs])"
proof -
  let ?valid = "filter (validVector vs) [0..<length docs]"
  from some_valid have ne: "?valid \<noteq> []"
    by (auto simp: filter_empty_conv)
  then have data_ne: "validData docs vs \<noteq> []" by (simp add: validData_eq)
  from some_valid have "docs \<noteq> []" by auto
  then have vne: "validChunks chunks \<noteq> []"
    by (auto simp: docs documentsChunksWithMetadata_def)
  have r: "processDocument env dto =
           (Inr \<lparr>success = True, documentId = uuidv4 env 0, chunksCount = length docs,
                 message = ''Documento processado com sucesso!''\<rparr>, w2)"
    using split vne embedded data_ne written
    by (simp add: processDocument_def Let_def docs [symmetric])
  have "committed w1 = committed (snd (embedBatches (embedDocuments env) (map chunk_text docs) 0 []
                          (world0 :: 'a world)))"
    by (simp add: embedded)
  then have c1: "committed w1 = []"
    by (simp add: embedBatches_committed world0_def)
  have c: "committed w2 = map (pointOf docs vs) ?valid"
    using insertBatches_None [OF written] c1 by (simp add: validData_eq)
  have v: "\<forall>p \<in> set (committed w2). length (point_vector p) = 384"
    by (auto simp: c pointOf_def validVector_def)
  have l: "length docs = length (validChunks chunks)"
    by (simp add: docs documentsChunksWithMetadata_def)
  have "length [0..<length docs] = length ?valid
          + length (filter (\<lambda>k. \<not> validVector vs k) [0..<length docs])"
    by (simp only: sum_length_filter_compl)
  then have s: "length docs = length (committed w2)
          + length (filter (\<lambda>k. \<not> validVector vs k) [0..<length docs])"
    by (simp add: c)
  from r c v l s show ?thesis by blast
qed

theorem dimension_validation_witness:
  "processDocument env_mixed dto_book =
     (Inr \<lparr>success = True, documentId = ''doc-0'', chunksCount = 2,
           message = ''Documento processado com sucesso!''\<rparr>,
      \<lparr>embedCalls = [[''first chunk of text'', ''second chunk of text'']],
       committed = [point_a], attempts = 1, delays = []\<rparr>)"
proof -
  let ?chunks = "[\<lparr>pageContent = '' first chunk of text '', pageNumber = Some 1\<rparr>,
                  \<lparr>pageContent = ''  tiny  '', pageNumber = Some 1\<rparr>,
                  \<lparr>pageContent = ''second chunk of text'', pageNumber = None\<rparr>]"
  let ?docs = "documentsChunksWithMetadata env_mixed (fileName dto_book) (validChunks ?chunks)"
  let ?vs = "[replicate 384 (0::int), replicate 256 0]"
  let ?w1 = "\<lparr>embedCalls = [[''first chunk of text'', ''second chunk of text'']],
              committed = [] :: int point list, attempts = 0, delays = []\<rparr>"
  let ?w2 = "\<lparr>embedCalls = [[''first chunk of text'', ''second chunk of text'']],
              committed = [point_a], attempts = 1, delays = []\<rparr>"
  have h1: "loadAndSplit env_mixed dto_book = Inr ?chunks"
    by (simp add: env_mixed_def dto_book_def loadAndSplit_def loader_eval str_eval)
  have h3: "embedBatches (embedDocuments env_mixed) (map chunk_text ?docs) 0 [] world0
              = (Inr ?vs, ?w1)"
    by (simp add: env_mixed_def dto_book_def ingest_eval)
  have len: "length ?docs = 2"
    by (simp add: ingest_eval)
  have "0 < length ?docs \<and> validVector ?vs 0"
    by (simp add: len validVector_def)
  then have h4: "\<exists>k < length ?docs. validVector ?vs k" by blast
  have h5: "insertBatches (upsert env_mixed) (validData ?docs ?vs) 0 ?w1 = (None, ?w2)"
    by (simp add: env_mixed_def dto_book_def point_a_def ingest_eval)
  have "processDocument env_mixed dto_book =
           (Inr \<lparr>success = True, documentId = uuidv4 env_mixed 0, chunksCount = length ?docs,
                 message = ''Documento processado com sucesso!''\<rparr>, ?w2)"
    using dimension_validation [OF h1 refl h3 h4 h5] by blast
  then show ?thesis by (simp add: len) (simp add: env_mixed_def)
qed

section \<open>Filtering and numbering of the chunks\<close>

lemma documentsChunks_texts:
  "map chunk_text (documentsChunksWithMetadata env fn v) = map (\<lambda>c. trim (pageContent c)) v"
  by (rule nth_equalityI)
     (simp_all add: documentsChunks_length documentsChunks_nth chunkWithMetadata_def)

lemma insertBatches_subset:
  "set (committed (snd (insertBatches up data i w))) \<subseteq> set (committed w) \<union> set data"
proof (cases "insertBatches up data i w")
  case (Pair r w')
  show ?thesis
  proof (cases r)
    case None
    with Pair have "committed w' = committed w @ drop i data"
      by (simp add: insertBatches_None)
    then show ?thesis using Pair by (auto dest: in_set_dropD)
  next
    case (Some e)
    with Pair insertBatches_Some [of up data i w e w']
    obtain j where "committed w' = committed w @ take (50 * j) (drop i data)" by blast
    then show ?thesis using Pair by (auto dest: in_set_takeD in_set_dropD)
  qed
qed

lemma validData_payload:
  assumes "p \<in> set (validData (documentsChunksWithMetadata env fn v) vs)"
  shows "\<exists>i < length v.
           map_of (point_payload p) ''chunkIndex'' = Some (JNumber (int i))
           \<and> map_of (point_payload p) ''text'' = Some (JString (trim (pageContent (v ! i))))"
proof -
  let ?docs = "documentsChunksWithMetadata env fn v"
  from assms obtain k where k: "k < length ?docs" and p: "p = pointOf ?docs vs k"
    by (auto simp: validData_eq)
  from k have kv: "k < length v" by (simp add: documentsChunks_length)
  then have "?docs ! k = chunkWithMetadata env fn (k, v ! k)"
    by (rule documentsChunks_nth)
  then have "map_of (point_payload p) ''chunkIndex'' = Some (JNumber (int k))
           \<and> map_of (point_payload p) ''text'' = Some (JString (trim (pageContent (v ! k))))"
    by (simp add: p pointOf_def chunkWithMetadata_def)
  with kv show ?thesis by blast
qed

lemma processDocument_committed:
  assumes "loadAndSplit env dto = Inr chunks"
  shows "\<exists>vs. set (committed (snd (processDocument env dto)))
               \<subseteq> set (validData (documentsChunksWithMetadata env (fileName dto)
                                     (validChunks chunks)) vs)"
proof (cases "validChunks chunks = []")
  case True
  with assms show ?thesis by (simp add: processDocument_def world0_def)
next
  case False
  let ?docs = "documentsChunksWithMetadata env (fileName dto) (validChunks chunks)"
  obtain r w1 where e: "embedBatches (embedDocuments env) (map chunk_text ?docs) 0 []
                          (world0 :: 'a world) = (r, w1)"
    by (cases "embedBatches (embedDocuments env) (map chunk_text ?docs) 0 [] (world0 :: 'a world)")
  have "committed w1 = committed (snd (embedBatches (embedDocuments env) (map chunk_text ?docs)
                                       0 [] (world0 :: 'a world)))"
    by (simp add: e)
  then have c1: "committed w1 = []"
    by (simp add: embedBatches_committed world0_def)
  show ?thesis
  proof (cases r)
    case (Inl err)
    with assms False e c1 show ?thesis by (simp add: processDocument_def Let_def)
  next
    case (Inr vs)
    show ?thesis
    proof (cases "validData ?docs vs = []")
      case True
      with assms False e c1 Inr show ?thesis by (simp add: processDocument_def Let_def)
    next
      case ne: False
      obtain r2 w2 where i: "insertBatches (upsert env) (validData ?docs vs) 0 w1 = (r2, w2)"
        by (cases "insertBatches (upsert env) (validData ?docs vs) 0 w1")
      have "set (committed w2) \<subseteq> set (validData ?docs vs)"
        using insertBatches_subset [of "upsert env" "validData ?docs vs" 0 w1] i c1 by simp
      moreover have "snd (processDocument env dto) = w2"
        using assms False e Inr ne i
        by (simp add: processDocument_def Let_def split: option.splits)
      ultimately show ?thesis by auto
    qed
  qed
qed

lemma processDocument_all_valid:
  assumes split: "loadAndSplit env dto = Inr chunks"
    and ne: "validChunks chunks \<noteq> []"
    and embedded: "embedBatches (embedDocuments env)
                     (map (\<lambda>c. trim (pageContent c)) (validChunks chunks)) 0 [] world0
                   = (Inr vs, w1)"
    and valid: "\<forall>i < length (validChunks chunks). validVector vs i"
    and written: "insertBatches (upsert env)
                    (validData (documentsChunksWithMetadata env (fileName dto)
                                  (validChunks chunks)) vs) 0 w1 = (None, w2)"
  shows "processDocument env dto =
           (Inr \<lparr>success = True, documentId = uuidv4 env 0,
                 chunksCount = length (validChunks chunks),
                 message = ''Documento processado com sucesso!''\<rparr>, w2)
     \<and> map (\<lambda>p. map_of (point_payload p) ''chunkIndex'') (committed w2)
         = map (\<lambda>i. Some (JNumber (int i))) [0..<length (validChunks chunks)]
     \<and> map (\<lambda>p. map_of (point_payload p) ''text'') (committed w2)
         = map (\<lambda>c. Some (JString (trim (pageContent c)))) (validChunks chunks)"
proof -
  let ?v = "validChunks chunks"
  let ?docs = "documentsChunksWithMetadata env (fileName dto) ?v"
  have len: "length ?docs = length ?v" by (rule documentsChunks_length)
  have all: "filter (validVector vs) [0..<length ?docs] = [0..<length ?docs]"
    using valid len by (intro filter_True) simp
  have data: "validData ?docs vs = map (pointOf ?docs vs) [0..<length ?v]"
    using all len by (simp add: validData_eq)
  from ne have data_ne: "validData ?docs vs \<noteq> []" by (simp add: data)
  have r: "processDocument env dto =
           (Inr \<lparr>success = True, documentId = uuidv4 env 0, chunksCount = length ?v,
                 message = ''Documento processado com sucesso!''\<rparr>, w2)"
    using split ne embedded data_ne written
    by (simp add: processDocument_def Let_def documentsChunks_texts len)
  have "committed w1 = committed (snd (embedBatches (embedDocuments env)
                          (map (\<lambda>c. trim (pageContent c)) ?v) 0 [] (world0 :: 'a world)))"
    by (simp add: embedded)
  then have c1: "committed w1 = []"
    by (simp add: embedBatches_committed world0_def)
  have c: "committed w2 = map (pointOf ?docs vs) [0..<length ?v]"
    using insertBatches_None [OF written] c1 by (simp add: data)
  have i: "map (\<lambda>p. map_of (point_payload p) ''chunkIndex'') (committed w2)
         = map (\<lambda>i. Some (JNumber (int i))) [0..<length ?v]"
    unfolding c
    by (rule nth_equalityI)
       (simp_all add: pointOf_def documentsChunks_nth chunkWithMetadata_def)
  have t: "map (\<lambda>p. map_of (point_payload p) ''text'') (committed w2)
         = map (\<lambda>c. Some (JString (trim (pageContent c)))) ?v"
    unfolding c
    by (rule nth_equalityI)
       (simp_all add: pointOf_def documentsChunks_nth chunkWithMetadata_def)
  from r i t show ?thesis by blast
qed

text \<open>
  Claim C4. The chunks are filtered before they are numbered: the surviving chunks are
  those whose trimmed text has at least 10 characters, every chunk with a shorter trimmed
  text is removed, and the \<open>i\<close>-th surviving chunk (counting from 0) gets the trimmed text of
  that chunk and \<open>chunkIndex = i\<close>. When the splitter returned chunks and none survives,
  \<open>processDocument\<close> fails with the no-valid-chunk error and nothing is embedded or
  written. Whatever the outcome of \<open>processDocument\<close>, every point it has committed
  carries the index \<open>i\<close> and the trimmed text, of at least 10 characters, of the
  \<open>i\<close>-th surviving chunk for some \<open>i\<close> below the number \<open>k\<close> of survivors. When the
  embedding of the surviving trimmed texts succeeds with a valid vector for each and the
  write loop ends without error, \<open>processDocument\<close> succeeds with \<open>chunksCount = k\<close>,
  and the committed points carry, in order, the indices 0, 1, ..., k-1 and the trimmed
  texts of the survivors.
\<close>

theorem chunk_filter_then_index:
  "validChunks chunks = filter (\<lambda>c. 10 \<le> length (trim (pageContent c))) chunks
   \<and> (\<forall>c \<in> set chunks. length (trim (pageContent c)) < 10 \<longrightarrow> c \<notin> set (validChunks chunks))
   \<and> length (documentsChunksWithMetadata env fn (validChunks chunks)) = length (validChunks chunks)
   \<and> (\<forall>i < length (validChunks chunks).
         chunk_text (documentsChunksWithMetadata env fn (validChunks chunks) ! i)
           = trim (pageContent (validChunks chunks ! i))
         \<and> 10 \<le> length (chunk_text (documentsChunksWithMetadata env fn (validChunks chunks) ! i))
         \<and> map_of (chunk_metadata (documentsChunksWithMetadata env fn (validChunks chunks) ! i))
              ''chunkIndex'' = Some (JNumber (int i)))
   \<and> (loadAndSplit env dto = Inr chunks \<and> validChunks chunks = []
        \<longrightarrow> processDocument env dto = (Inl NoValidChunk, world0))
   \<and> (loadAndSplit env dto = Inr chunks
        \<longrightarrow> (\<forall>p \<in> set (committed (snd (processDocument env dto))).
               \<exists>i < length (validChunks chunks).
                 map_of (point_payload p) ''chunkIndex'' = Some (JNumber (int i))
                 \<and> map_of (point_payload p) ''text''
                     = Some (JString (trim (pageContent (validChunks chunks ! i))))
                 \<and> 10 \<le> length (trim (pageContent (validChunks chunks ! i)))))
   \<and> (\<forall>vs w1 w2.
         loadAndSplit env dto = Inr chunks \<and> validChunks chunks \<noteq> []
         \<and> embedBatches (embedDocuments env)
              (map (\<lambda>c. trim (pageContent c)) (validChunks chunks)) 0 [] world0 = (Inr vs, w1)
         \<and> (\<forall>i < length (validChunks chunks). validVector vs i)
         \<and> insertBatches (upsert env)
              (validData (documentsChunksWithMetadata env (fileName dto) (validChunks chunks)) vs)
              0 w1 = (None, w2)
        \<longrightarrow> processDocument env dto =
              (Inr \<lparr>success = True, documentId = uuidv4 env 0,
                    chunksCount = length (validChunks chunks),
                    message = ''Documento processado com sucesso!''\<rparr>, w2)
            \<and> map (\<lambda>p. map_of (point_payload p) ''chunkIndex'') (committed w2)
                = map (\<lambda>i. Some (JNumber (int i))) [0..<length (validChunks chunks)]
            \<and> map (\<lambda>p. map_of (point_payload p) ''text'') (committed w2)
                = map (\<lambda>c. Some (JString (trim (pageContent c)))) (validChunks chunks))"
proof -
  let ?v = "validChunks chunks"
  let ?ds = "documentsChunksWithMetadata env fn ?v"
  have long: "\<forall>i < length ?v. 10 \<le> length (trim (pageContent (?v ! i)))"
  proof (intro allI impI)
    fix i assume "i < length ?v"
    then have "?v ! i \<in> set ?v" by simp
    then show "10 \<le> length (trim (pageContent (?v ! i)))"
      by (simp add: validChunks_def)
  qed
  have a: "?v = filter (\<lambda>c. 10 \<le> length (trim (pageContent c))) chunks"
    by (simp add: validChunks_def)
  have b: "\<forall>c \<in> set chunks. length (trim (pageContent c)) < 10 \<longrightarrow> c \<notin> set ?v"
    by (simp add: validChunks_def)
  have c: "length ?ds = length ?v"
    by (rule documentsChunks_length)
  have d: "\<forall>i < length ?v.
         chunk_text (?ds ! i) = trim (pageContent (?v ! i))
         \<and> 10 \<le> length (chunk_text (?ds ! i))
         \<and> map_of (chunk_metadata (?ds ! i)) ''chunkIndex'' = Some (JNumber (int i))"
    using long by (simp add: documentsChunks_nth chunkWithMetadata_def)
  have e: "loadAndSplit env dto = Inr chunks \<and> ?v = []
        \<longrightarrow> processDocument env dto = (Inl NoValidChunk, world0)"
    by (simp add: processDocument_def)
  have f: "loadAndSplit env dto = Inr chunks
        \<longrightarrow> (\<forall>p \<in> set (committed (snd (processDocument env dto))).
               \<exists>i < length ?v.
                 map_of (point_payload p) ''chunkIndex'' = Some (JNumber (int i))
                 \<and> map_of (point_payload p) ''text''
                     = Some (JString (trim (pageContent (?v ! i))))
                 \<and> 10 \<le> length (trim (pageContent (?v ! i))))"
  proof (intro impI ballI)
    fix p
    assume l: "loadAndSplit env dto = Inr chunks"
      and p: "p \<in> set (committed (snd (processDocument env dto)))"
    from processDocument_committed [OF l] p obtain vs
      where "p \<in> set (validData (documentsChunksWithMetadata env (fileName dto) ?v) vs)"
      by blast
    from validData_payload [OF this] long
    show "\<exists>i < length ?v.
                 map_of (point_payload p) ''chunkIndex'' = Some (JNumber (int i))
                 \<and> map_of (point_payload p) ''text''
                     = Some (JString (trim (pageContent (?v ! i))))
                 \<and> 10 \<le> length (trim (pageContent (?v ! i)))"
      by blast
  qed
  have g: "\<forall>vs w1 w2.
         loadAndSplit env dto = Inr chunks \<and> ?v \<noteq> []
         \<and> embedBatches (embedDocuments env)
              (map (\<lambda>c. trim (pageContent c)) ?v) 0 [] world0 = (Inr vs, w1)
         \<and> (\<forall>i < length ?v. validVector vs i)
         \<and> insertBatches (upsert env)
              (validData (documentsChunksWithMetadata env (fileName dto) ?v) vs)
              0 w1 = (None, w2)
        \<longrightarrow> processDocument env dto =
              (Inr \<lparr>success = True, documentId = uuidv4 env 0,
                    chunksCount = length ?v,
                    message = ''Documento processado com sucesso!''\<rparr>, w2)
            \<and> map (\<lambda>p. map_of (point_payload p) ''chunkIndex'') (committed w2)
                = map (\<lambda>i. Some (JNumber (int i))) [0..<length ?v]
            \<and> map (\<lambda>p. map_of (point_payload p) ''text'') (committed w2)
                = map (\<lambda>c. Some (JString (trim (pageContent c)))) ?v"
    by (intro allI impI processDocument_all_valid) blast+
  from a b c d e f g show ?thesis by (intro conjI)
qed

theorem chunk_filter_then_index_witness:
  "processDocument env_tiny dto_book = (Inl NoValidChunk, world0)
   \<and> validChunks chunks_mixed =
        [\<lparr>pageContent = '' first chunk of text '', pageNumber = Some 1\<rparr>,
         \<lparr>pageContent = ''second chunk of text'', pageNumber = None\<rparr>]
   \<and> fst (processDocument env_three dto_book) =
        Inr \<lparr>success = True, documentId = ''doc-0'', chunksCount = 2,
             message = ''Documento processado com sucesso!''\<rparr>
   \<and> map (\<lambda>p. map_of (point_payload p) ''chunkIndex'')
         (committed (snd (processDocument env_three dto_book)))
       = [Some (JNumber 0), Some (JNumber 1)]
   \<and> map (\<lambda>p. map_of (point_payload p) ''text'')
         (committed (snd (processDocument env_three dto_book)))
       = [Some (JString ''first chunk of text''), Some (JString ''second chunk of text'')]"
proof -
  have l: "loadAndSplit env_tiny dto_book = Inr [\<lparr>pageContent = ''  a b c   '', pageNumber = None\<rparr>]"
    by (simp add: env_tiny_def dto_book_def loadAndSplit_def loader_eval str_eval)
  have v: "validChunks [\<lparr>pageContent = ''  a b c   '', pageNumber = None\<rparr>] = []"
    by (simp add: validChunks_def trim_def isSpace_def)
  have a: "processDocument env_tiny dto_book = (Inl NoValidChunk, world0)"
    using chunk_filter_then_index
            [of "[\<lparr>pageContent = ''  a b c   '', pageNumber = None\<rparr>]" env_tiny "''book.pdf''"
                dto_book, THEN conjunct2, THEN conjunct2, THEN conjunct2, THEN conjunct2,
                THEN conjunct1]
          l v by blast
  have vm: "validChunks chunks_mixed =
        [\<lparr>pageContent = '' first chunk of text '', pageNumber = Some 1\<rparr>,
         \<lparr>pageContent = ''second chunk of text'', pageNumber = None\<rparr>]"
    by (simp add: chunks_mixed_def validChunks_def trim_def isSpace_def)
  let ?texts = "[''first chunk of text'', ''second chunk of text'']"
  let ?vs = "[replicate 384 (0::int), replicate 384 0]"
  let ?w1 = "\<lparr>embedCalls = [?texts], committed = [] :: int point list, attempts = 0,
              delays = []\<rparr>"
  let ?data = "validData (documentsChunksWithMetadata env_three (fileName dto_book)
                            (validChunks chunks_mixed)) ?vs"
  let ?w2 = "\<lparr>embedCalls = [?texts], committed = ?data, attempts = 1, delays = []\<rparr>"
  have h1: "loadAndSplit env_three dto_book = Inr chunks_mixed"
    by (simp add: env_three_def dto_book_def loadAndSplit_def loader_eval str_eval
                  chunks_mixed_def)
  have h2: "validChunks chunks_mixed \<noteq> []" by (simp add: vm)
  have tx: "map (\<lambda>c. trim (pageContent c)) (validChunks chunks_mixed) = ?texts"
    by (simp add: vm trim_def isSpace_def)
  have h3: "embedBatches (embedDocuments env_three)
              (map (\<lambda>c. trim (pageContent c)) (validChunks chunks_mixed)) 0 [] world0
            = (Inr ?vs, ?w1)"
    unfolding tx
    by (simp add: env_three_def embedBatches.simps world0_def slice_def
                  EMBEDDING_BATCH_SIZE_def)
  have h4: "\<forall>i < length (validChunks chunks_mixed). validVector ?vs i"
    by (simp add: vm validVector_def less_Suc_eq)
  have dl: "length ?data = 2"
    by (simp add: vm validData_def List.map_filter_def enumerate_eq_zip toPoint_def
                  documentsChunksWithMetadata_def EXPECTED_DIMENSION_def)
  have h5: "insertBatches (upsert env_three) ?data 0 ?w1 = (None, ?w2)"
  proof -
    define d where "d = ?data"
    have len: "length d = 2" by (simp add: d_def dl)
    have up: "upsert env_three = (\<lambda>k batch. None)" by (simp add: env_three_def)
    have "insertBatches (\<lambda>k batch. None) d 0 ?w1
          = (None, \<lparr>embedCalls = [?texts], committed = d, attempts = 1, delays = []\<rparr>)"
      by (simp add: len insertBatches.simps upsertWithRetry.simps BATCH_SIZE_def slice_def)
    then show ?thesis by (simp add: up d_def)
  qed
  note g = chunk_filter_then_index
             [of chunks_mixed env_three "''book.pdf''" dto_book, THEN conjunct2, THEN conjunct2,
              THEN conjunct2, THEN conjunct2, THEN conjunct2, THEN conjunct2, rule_format,
              of ?vs ?w1 ?w2]
  have r: "processDocument env_three dto_book =
              (Inr \<lparr>success = True, documentId = uuidv4 env_three 0,
                    chunksCount = length (validChunks chunks_mixed),
                    message = ''Documento processado com sucesso!''\<rparr>, ?w2)
            \<and> map (\<lambda>p. map_of (point_payload p) ''chunkIndex'') (committed ?w2)
                = map (\<lambda>i. Some (JNumber (int i))) [0..<length (validChunks chunks_mixed)]
            \<and> map (\<lambda>p. map_of (point_payload p) ''text'') (committed ?w2)
                = map (\<lambda>c. Some (JString (trim (pageContent c)))) (validChunks chunks_mixed)"
    using h1 h2 h3 h4 h5 by (intro g) simp_all
  have u: "[0..<2] = [0, 1]" by (simp add: upt_rec)
  from r have b: "fst (processDocument env_three dto_book) =
        Inr \<lparr>success = True, documentId = ''doc-0'', chunksCount = 2,
             message = ''Documento processado com sucesso!''\<rparr>"
    by (simp add: vm) (simp add: env_three_def)
  from r have c: "map (\<lambda>p. map_of (point_payload p) ''chunkIndex'')
         (committed (snd (processDocument env_three dto_book)))
       = [Some (JNumber 0), Some (JNumber 1)]"
    by (simp add: vm u)
  from r have d: "map (\<lambda>p. map_of (point_payload p) ''text'')
         (committed (snd (processDocument env_three dto_book)))
       = [Some (JString ''first chunk of text''), Some (JString ''second chunk of text'')]"
    by (simp add: vm trim_def isSpace_def)
  from a vm b c d show ?thesis by blast
qed

section \<open>Payload of a point\<close>

text \<open>
  Claim C6 at a concrete call: the one point committed has the identifier generated for
  its chunk, and its payload has the keys \<open>text\<close>, \<open>documentId\<close>, \<open>chunkIndex\<close>,
  \<open>fileName\<close>, \<open>uploadAt\<close> and \<open>page\<close>, in this order. The timestamp is stored under
  \<open>uploadAt\<close>; the payload has no key \<open>uploadedAt\<close>, the name that the specification and
  the interface \<open>DocumentChunk\<close> of the repository give to this field.
\<close>

theorem payload_upload_key:
  "map point_id (committed (snd (processDocument env_mixed dto_book))) = [''chunk-a'']
   \<and> map point_payload (committed (snd (processDocument env_mixed dto_book))) =
       [[(''text'', JString ''first chunk of text''),
         (''documentId'', JString ''doc-0''),
         (''chunkIndex'', JNumber 0),
         (''fileName'', JString ''book.pdf''),
         (''uploadAt'', JString ''2025-01-01T00:00:00.000Z''),
         (''page'', JNumber 1)]]
   \<and> map (\<lambda>p. map_of (point_payload p) ''uploadedAt'')
         (committed (snd (processDocument env_mixed dto_book))) = [None]"
  by (simp add: env_mixed_def dto_book_def ingest_eval loader_eval str_eval)

section \<open>The gates of the scrapers\<close>

lemma cheerio_article:
  "cheerioScrape senv_article ''https://example.org/a'' =
     Inr \<lparr>content = text_100, title = Some ''A long read'',
          ogImage = Some ''https://example.org/img/cover.png'',
          url = ''https://example.org/a'', scrapedAt = ''2025-01-01T00:00:00.000Z''\<rparr>"
  by (simp add: senv_article_def page_article_def text_100_def scrape_eval)

text \<open>
  Claim C7. Under both strategies a cleaned text of fewer than 100 characters makes the
  extraction fail with the content-too-short error, carrying the length, so whatever
  \<open>scrapeUrl\<close> returns has at least 100 characters of content. Under the static-fetch
  strategy a response whose status is not 200 fails with an error that carries the status,
  whatever the page contains: the status error thrown by the scraper when Axios resolves,
  and the HTTP error built from the Axios error when Axios rejects with a response (and
  did not time out). Neither equals a content-too-short error.
\<close>

theorem content_gate:
  "(\<forall>p. axiosGet env u = Response 200 p
         \<and> length (htmlToCleanText env (extractMainContent p)) < 100
       \<longrightarrow> cheerioScrape env u =
             Inl (CheerioError (ContentTooShort (length (htmlToCleanText env (extractMainContent p))))))
   \<and> (\<forall>d ds. playwrightLoad env u = Inr (d # ds) \<and> length (cleanText (pw_content d)) < 100
       \<longrightarrow> playwrightScrape env u =
             Inl (PlaywrightError (ContentTooShort (length (cleanText (pw_content d))))))
   \<and> (\<forall>r. scrapeUrl env u engine = Inr r \<longrightarrow> 100 \<le> length (content r))
   \<and> (\<forall>status p. axiosGet env u = Response status p \<and> status \<noteq> 200
       \<longrightarrow> cheerioScrape env u = Inl (CheerioError (HttpStatus status)))
   \<and> (\<forall>c status req msg.
         axiosGet env u = AxiosError c (Some status) req msg \<and> c \<noteq> Some ''ECONNABORTED''
       \<longrightarrow> cheerioScrape env u = Inl (HttpError status u))
   \<and> (\<forall>status n. CheerioError (HttpStatus status) \<noteq> CheerioError (ContentTooShort n)
                 \<and> HttpError status u \<noteq> CheerioError (ContentTooShort n))"
proof (intro conjI)
  show "\<forall>p. axiosGet env u = Response 200 p
         \<and> length (htmlToCleanText env (extractMainContent p)) < 100
       \<longrightarrow> cheerioScrape env u =
             Inl (CheerioError (ContentTooShort (length (htmlToCleanText env (extractMainContent p)))))"
    by (simp add: cheerioScrape_def Let_def)
  show "\<forall>d ds. playwrightLoad env u = Inr (d # ds) \<and> length (cleanText (pw_content d)) < 100
       \<longrightarrow> playwrightScrape env u =
             Inl (PlaywrightError (ContentTooShort (length (cleanText (pw_content d)))))"
    by (simp add: playwrightScrape_def Let_def)
  show "\<forall>r. scrapeUrl env u engine = Inr r \<longrightarrow> 100 \<le> length (content r)"
    by (auto simp: scrapeUrl_def cheerioScrape_def playwrightScrape_def Let_def
             split: ScraperEngine.splits axios_outcome.splits if_splits option.splits
                    sum.splits list.splits)
  show "\<forall>status p. axiosGet env u = Response status p \<and> status \<noteq> 200
       \<longrightarrow> cheerioScrape env u = Inl (CheerioError (HttpStatus status))"
    by (simp add: cheerioScrape_def)
  show "\<forall>c status req msg.
         axiosGet env u = AxiosError c (Some status) req msg \<and> c \<noteq> Some ''ECONNABORTED''
       \<longrightarrow> cheerioScrape env u = Inl (HttpError status u)"
    by (simp add: cheerioScrape_def)
  show "\<forall>status n. CheerioError (HttpStatus status) \<noteq> CheerioError (ContentTooShort n)
                 \<and> HttpError status u \<noteq> CheerioError (ContentTooShort n)"
    by simp
qed

theorem content_gate_witness:
  "cheerioScrape senv ''https://example.org/'' = Inl (CheerioError (ContentTooShort 15))
   \<and> playwrightScrape senv ''https://example.org/'' = Inl (PlaywrightError (ContentTooShort 15))
   \<and> cheerioScrape senv ''https://example.org/missing'' = Inl (CheerioError (HttpStatus 204))
   \<and> cheerioScrape senv ''https://example.org/gone''
       = Inl (HttpError 404 ''https://example.org/gone'')
   \<and> 100 \<le> length text_100"
proof -
  let ?u = "''https://example.org/''"
  let ?d = "\<lparr>pw_title = ''Hello'', pw_ogImage = None, pw_content = ''  three   word page ''\<rparr>"
  have g: "axiosGet senv ?u = Response 200 page_short" by (simp add: senv_def)
  have t: "htmlToCleanText senv (extractMainContent page_short) = ''three word page''"
    by (simp add: senv_def page_short_def scrape_eval)
  have a: "cheerioScrape senv ?u = Inl (CheerioError (ContentTooShort 15))"
    using content_gate [of senv ?u, THEN conjunct1, rule_format, of page_short] g t by simp
  have l: "playwrightLoad senv ?u = Inr [?d]" by (simp add: senv_def)
  have c: "cleanText (pw_content ?d) = ''three word page''"
    by (simp add: scrape_eval)
  have b: "playwrightScrape senv ?u = Inl (PlaywrightError (ContentTooShort 15))"
    using content_gate [of senv ?u, THEN conjunct2, THEN conjunct1, rule_format, of ?d "[]"] l c
    by simp
  have g2: "axiosGet senv ''https://example.org/missing'' = Response 204 page_short"
    by (simp add: senv_def)
  have d: "cheerioScrape senv ''https://example.org/missing'' = Inl (CheerioError (HttpStatus 204))"
    using content_gate [of senv "''https://example.org/missing''", THEN conjunct2, THEN conjunct2,
            THEN conjunct2, THEN conjunct1, rule_format, of 204 page_short] g2
    by simp
  have g3: "axiosGet senv ''https://example.org/gone'' =
              AxiosError (Some ''ERR_BAD_REQUEST'') (Some 404) True
                ''Request failed with status code 404''"
    by (simp add: senv_def)
  have e: "cheerioScrape senv ''https://example.org/gone''
             = Inl (HttpError 404 ''https://example.org/gone'')"
    using content_gate [of senv "''https://example.org/gone''", THEN conjunct2, THEN conjunct2,
            THEN conjunct2, THEN conjunct2, THEN conjunct1, rule_format,
            of "Some ''ERR_BAD_REQUEST''" 404 True "''Request failed with status code 404''"] g3
    by simp
  have s: "scrapeUrl senv_article ''https://example.org/a'' None =
            Inr \<lparr>content = text_100, title = Some ''A long read'',
                 ogImage = Some ''https://example.org/img/cover.png'',
                 url = ''https://example.org/a'', scrapedAt = ''2025-01-01T00:00:00.000Z''\<rparr>"
    by (simp add: scrapeUrl_def engine_eval str_eval cheerio_article)
  have f: "100 \<le> length text_100"
    using content_gate [of senv_article "''https://example.org/a''" None, THEN conjunct2,
            THEN conjunct2, THEN conjunct1, rule_format, OF s]
    by simp
  from a b d e f show ?thesis by blast
qed

section \<open>Title and image of a page\<close>

text \<open>
  Claim C8, as the specification states it, fails: the code tests each candidate with
  \<open>if (v)\<close>, so a meta element that is present with an empty \<open>content\<close> counts as
  absent. For a page with \<open>og:title\<close> and \<open>og:image\<close> elements of empty content and the
  title \<open>Hello\<close>, the code returns the title \<open>Hello\<close> and no image, where the
  specification's rule gives the empty title and the resolved image.
\<close>

theorem title_and_image_counterexample:
  "ogTitleContent page_short = Some [] \<and> ogImageContent page_short = Some []
   \<and> extractTitle page_short = Some ''Hello''
   \<and> spec_extractTitle page_short = Some []
   \<and> extractOgImage senv page_short ''https://example.org/'' = None
   \<and> spec_extractOgImage senv page_short ''https://example.org/'' = Some ''https://example.org/''"
  by (simp add: page_short_def senv_def spec_extractTitle_def spec_extractOgImage_def scrape_eval)

text \<open>
  Claim C8, amended. The title is the trimmed \<open>og:title\<close> content when that is present
  and not empty; otherwise the trimmed \<open>title\<close> text when not empty, otherwise the
  trimmed text of the first \<open>h1\<close> when not empty, otherwise null. The image is null when
  the \<open>og:image\<close> content is absent or empty; otherwise it is the content resolved against
  the page URL, or the raw content when it cannot be resolved. These are the title and
  the image of the content that the static-fetch scraper returns.
\<close>

theorem title_and_image_extraction:
  "(\<forall>t. ogTitleContent p = Some t \<and> t \<noteq> [] \<longrightarrow> extractTitle p = Some (trim t))
   \<and> (ogTitleContent p = None \<or> ogTitleContent p = Some [] \<longrightarrow>
        extractTitle p =
          (if titleText p \<noteq> [] then Some (trim (titleText p))
           else if firstH1Text p \<noteq> [] then Some (trim (firstH1Text p))
           else None))
   \<and> (ogImageContent p = None \<or> ogImageContent p = Some [] \<longrightarrow>
        extractOgImage env p base = None)
   \<and> (\<forall>v. ogImageContent p = Some v \<and> v \<noteq> [] \<longrightarrow>
        extractOgImage env p base =
          (case resolveUrl env v base of Some href \<Rightarrow> Some href | None \<Rightarrow> Some v))
   \<and> (\<forall>r. cheerioScrape env u = Inr r \<longrightarrow>
        (\<exists>q. axiosGet env u = Response 200 q
           \<and> title r = extractTitle q \<and> ogImage r = extractOgImage env q u))"
proof (intro conjI)
  show "\<forall>t. ogTitleContent p = Some t \<and> t \<noteq> [] \<longrightarrow> extractTitle p = Some (trim t)"
    by (simp add: extractTitle_def truthy_def)
  show "ogTitleContent p = None \<or> ogTitleContent p = Some [] \<longrightarrow>
        extractTitle p =
          (if titleText p \<noteq> [] then Some (trim (titleText p))
           else if firstH1Text p \<noteq> [] then Some (trim (firstH1Text p))
           else None)"
    by (auto simp: extractTitle_def truthy_def)
  show "ogImageContent p = None \<or> ogImageContent p = Some [] \<longrightarrow>
        extractOgImage env p base = None"
    by (auto simp: extractOgImage_def truthy_def)
  show "\<forall>v. ogImageContent p = Some v \<and> v \<noteq> [] \<longrightarrow>
        extractOgImage env p base =
          (case resolveUrl env v base of Some href \<Rightarrow> Some href | None \<Rightarrow> Some v)"
    by (simp add: extractOgImage_def truthy_def)
  show "\<forall>r. cheerioScrape env u = Inr r \<longrightarrow>
        (\<exists>q. axiosGet env u = Response 200 q
           \<and> title r = extractTitle q \<and> ogImage r = extractOgImage env q u)"
    by (auto simp: cheerioScrape_def Let_def
             split: axios_outcome.splits if_splits option.splits)
qed

theorem title_and_image_extraction_witness:
  "extractTitle page_article = Some ''A long read''
   \<and> extractTitle page_short = Some ''Hello''
   \<and> extractOgImage senv page_short ''https://example.org/'' = None
   \<and> extractOgImage senv_article page_article ''https://example.org/a''
       = Some ''https://example.org/img/cover.png''
   \<and> extractOgImage senv page_article ''https://example.org/a'' = Some ''/img/cover.png''"
proof -
  have o: "ogTitleContent page_article = Some '' A long read '' \<and> '' A long read '' \<noteq> []"
    by (simp add: page_article_def)
  have a: "extractTitle page_article = Some (trim '' A long read '')"
    using title_and_image_extraction [of page_article, THEN conjunct1, rule_format, OF o] .
  have e: "ogTitleContent page_short = None \<or> ogTitleContent page_short = Some []"
    by (simp add: page_short_def)
  have b: "extractTitle page_short =
          (if titleText page_short \<noteq> [] then Some (trim (titleText page_short))
           else if firstH1Text page_short \<noteq> [] then Some (trim (firstH1Text page_short))
           else None)"
    using title_and_image_extraction [of page_short, THEN conjunct2, THEN conjunct1,
            rule_format, OF e] .
  have i: "ogImageContent page_short = None \<or> ogImageContent page_short = Some []"
    by (simp add: page_short_def)
  have c: "extractOgImage senv page_short ''https://example.org/'' = None"
    using title_and_image_extraction [of page_short senv "''https://example.org/''",
            THEN conjunct2, THEN conjunct2, THEN conjunct1, rule_format, OF i] .
  have v: "ogImageContent page_article = Some ''/img/cover.png'' \<and> ''/img/cover.png'' \<noteq> []"
    by (simp add: page_article_def)
  have d1: "extractOgImage senv_article page_article ''https://example.org/a'' =
          (case resolveUrl senv_article ''/img/cover.png'' ''https://example.org/a'' of
             Some href \<Rightarrow> Some href | None \<Rightarrow> Some ''/img/cover.png'')"
    using title_and_image_extraction [of page_article senv_article "''https://example.org/a''",
            THEN conjunct2, THEN conjunct2, THEN conjunct2, THEN conjunct1, rule_format, OF v] .
  have d2: "extractOgImage senv page_article ''https://example.org/a'' =
          (case resolveUrl senv ''/img/cover.png'' ''https://example.org/a'' of
             Some href \<Rightarrow> Some href | None \<Rightarrow> Some ''/img/cover.png'')"
    using title_and_image_extraction [of page_article senv "''https://example.org/a''",
            THEN conjunct2, THEN conjunct2, THEN conjunct2, THEN conjunct1, rule_format, OF v] .
  from a b c d1 d2 show ?thesis
    by (simp add: page_short_def senv_def senv_article_def trim_def isSpace_def)
qed

end
